theory Spec2Isabelle
  imports Main "HOL-Library.Monad_Syntax" "HOL-Library.Char_ord" "HOL-Library.List_Lexorder"
    "HOL-Library.Multiset"
begin

section \<open>Values of a loaded knowledge-graph document\<close>

text \<open>
  \<^verbatim>\<open>load_knowledge_graph\<close> returns whatever \<^verbatim>\<open>json.load\<close> parsed. A parsed value is
  None, a bool, a number, a str, a list or a dict. A dict keeps its keys in insertion
  order, so it is an association list (with pairwise different keys). Strings are lists
  of code points below 256; numbers are the integers (the text Python prints for a float
  is not part of this development).
\<close>

datatype json =
    JNull
  | JBool bool
  | JInt int
  | JStr string
  | JArr "json list"
  | JObj "(string \<times> json) list"

text \<open>
  Every exception of the query code (KeyError, TypeError, AttributeError) ends the
  command; a raising computation is \<open>None\<close>.
\<close>

text \<open>\<^verbatim>\<open>d.get(k)\<close>: only a dict has the method; a missing key gives Python's None.\<close>

fun py_get :: "json \<Rightarrow> string \<Rightarrow> json option option" where
  "py_get (JObj kvs) k = Some (map_of kvs k)"
| "py_get _ k = None"

text \<open>\<^verbatim>\<open>d.get(k, dflt)\<close>.\<close>

definition py_get_default :: "json \<Rightarrow> string \<Rightarrow> json \<Rightarrow> json option" where
  "py_get_default d k dflt =
     (case py_get d k of None \<Rightarrow> None | Some None \<Rightarrow> Some dflt | Some (Some v) \<Rightarrow> Some v)"

text \<open>\<^verbatim>\<open>d[k]\<close> with a str key: KeyError on a dict without the key, TypeError on
  everything that is not a dict.\<close>

fun py_item :: "json \<Rightarrow> string \<Rightarrow> json option" where
  "py_item (JObj kvs) k = map_of kvs k"
| "py_item _ k = None"

text \<open>\<^verbatim>\<open>for x in v\<close>: a list gives its elements, a dict its keys, a str its characters;
  the other values are not iterable.\<close>

fun py_iter :: "json \<Rightarrow> json list option" where
  "py_iter (JArr xs) = Some xs"
| "py_iter (JObj kvs) = Some (map (\<lambda>kv. JStr (fst kv)) kvs)"
| "py_iter (JStr s) = Some (map (\<lambda>c. JStr [c]) s)"
| "py_iter _ = None"

text \<open>\<^verbatim>\<open>len(v)\<close>.\<close>

fun py_len :: "json \<Rightarrow> nat option" where
  "py_len (JArr xs) = Some (length xs)"
| "py_len (JObj kvs) = Some (length kvs)"
| "py_len (JStr s) = Some (length s)"
| "py_len _ = None"

text \<open>\<^verbatim>\<open>a == b\<close> on parsed values: True equals 1 and False equals 0, lists are compared
  element by element, dicts as mappings (whatever the key order). It never raises.\<close>

fun py_eq :: "json \<Rightarrow> json \<Rightarrow> bool" where
  "py_eq JNull b = (b = JNull)"
| "py_eq (JBool a) b = (case b of JBool c \<Rightarrow> a = c | JInt n \<Rightarrow> n = (if a then 1 else 0) | _ \<Rightarrow> False)"
| "py_eq (JInt m) b = (case b of JBool c \<Rightarrow> m = (if c then 1 else 0) | JInt n \<Rightarrow> m = n | _ \<Rightarrow> False)"
| "py_eq (JStr s) b = (b = JStr s)"
| "py_eq (JArr xs) b = (case b of JArr ys \<Rightarrow> list_all2 py_eq xs ys | _ \<Rightarrow> False)"
| "py_eq (JObj kvs) b = (case b of
       JObj kws \<Rightarrow> length kvs = length kws \<and>
         list_all (\<lambda>kv. case map_of kws (fst kv) of None \<Rightarrow> False | Some w \<Rightarrow> py_eq (snd kv) w) kvs
     | _ \<Rightarrow> False)"

text \<open>The truth value of a value, as \<^verbatim>\<open>if target:\<close> takes it (Python's None, the
  result of \<^verbatim>\<open>next(..., None)\<close> without a match, is false as well).\<close>

fun truthy :: "json \<Rightarrow> bool" where
  "truthy JNull = False"
| "truthy (JBool b) = b"
| "truthy (JInt n) = (n \<noteq> 0)"
| "truthy (JStr s) = (s \<noteq> [])"
| "truthy (JArr xs) = (xs \<noteq> [])"
| "truthy (JObj kvs) = (kvs \<noteq> [])"

definition truthy_opt :: "json option \<Rightarrow> bool" where
  "truthy_opt r = (case r of None \<Rightarrow> False | Some v \<Rightarrow> truthy v)"

subsection \<open>Strings\<close>

text \<open>\<^verbatim>\<open>str.lower()\<close> on code points below 256: A-Z and the accented capitals
  0xC0-0xDE (0xD7, the multiplication sign, apart) move up by 32.\<close>

definition lower_char :: "char \<Rightarrow> char" where
  "lower_char c =
     (let n = (of_char c :: nat) in
      if (65 \<le> n \<and> n \<le> 90) \<or> (192 \<le> n \<and> n \<le> 222 \<and> n \<noteq> 215)
      then char_of (n + 32) else c)"

definition lower :: "string \<Rightarrow> string" where
  "lower s = map lower_char s"

text \<open>\<^verbatim>\<open>v.lower()\<close> on a parsed value: AttributeError unless it is a str.\<close>

fun py_lower :: "json \<Rightarrow> string option" where
  "py_lower (JStr s) = Some (lower s)"
| "py_lower _ = None"

text \<open>\<^verbatim>\<open>t in s\<close> on two strs: \<open>t\<close> starts at some position of \<open>s\<close>.\<close>

fun starts_with :: "string \<Rightarrow> string \<Rightarrow> bool" where
  "starts_with [] s = True"
| "starts_with (c # t) [] = False"
| "starts_with (c # t) (d # s) = (c = d \<and> starts_with t s)"

fun str_in :: "string \<Rightarrow> string \<Rightarrow> bool" where
  "str_in t [] = (t = [])"
| "str_in t (d # s) = (starts_with t (d # s) \<or> str_in t s)"

section \<open>Reading the document\<close>

text \<open>\<^verbatim>\<open>for x in kg.get(key, [])\<close>: the sequence a loop runs over.\<close>

definition kg_seq :: "json \<Rightarrow> string \<Rightarrow> json list option" where
  "kg_seq kg key = do { v \<leftarrow> py_get_default kg key (JArr []); py_iter v }"

text \<open>\<^verbatim>\<open>next((e for e in kg.get('entities', []) if e['id'] == rel[end]), None)\<close>:
  the generator is lazy, so \<^verbatim>\<open>e['id']\<close> and then \<^verbatim>\<open>rel[end]\<close> are evaluated entity by
  entity, up to the first entity that compares equal.\<close>

fun first_with_id :: "json list \<Rightarrow> json \<Rightarrow> string \<Rightarrow> json option option" where
  "first_with_id [] rel k = Some None"
| "first_with_id (e # es) rel k = do {
     i \<leftarrow> py_item e ''id'';
     t \<leftarrow> py_item rel k;
     if py_eq i t then Some (Some e) else first_with_id es rel k }"

definition resolve :: "json \<Rightarrow> json \<Rightarrow> string \<Rightarrow> json option option" where
  "resolve kg rel k = do { es \<leftarrow> kg_seq kg ''entities''; first_with_id es rel k }"

text \<open>The matching loop shared by \<^verbatim>\<open>find_entity\<close> and \<^verbatim>\<open>find_related\<close>:
  \<^verbatim>\<open>if name in entity.get('name', '').lower(): matches.append(entity)\<close>.\<close>

fun match_loop :: "string \<Rightarrow> json list \<Rightarrow> json list \<Rightarrow> json list option" where
  "match_loop name [] matches = Some matches"
| "match_loop name (entity # rest) matches = do {
     n \<leftarrow> py_get_default entity ''name'' (JStr []);
     l \<leftarrow> py_lower n;
     match_loop name rest (if str_in name l then matches @ [entity] else matches) }"

definition name_matches :: "json \<Rightarrow> string \<Rightarrow> json list option" where
  "name_matches kg name = do { es \<leftarrow> kg_seq kg ''entities''; match_loop (lower name) es [] }"


section \<open>find related\<close>

datatype direction = Outgoing | Incoming

text \<open>One element of the list \<^verbatim>\<open>related\<close>: the dict with the keys \<^verbatim>\<open>entity\<close>,
  \<^verbatim>\<open>relationship\<close> and \<^verbatim>\<open>direction\<close>.\<close>

record related =
  entity :: json
  relationship :: json
  direction :: direction

text \<open>Lines 118-126: the relationships whose source is the entity.\<close>

fun outgoing_loop :: "json \<Rightarrow> json \<Rightarrow> json list \<Rightarrow> related list \<Rightarrow> related list option" where
  "outgoing_loop kg ent [] acc = Some acc"
| "outgoing_loop kg ent (rel # rest) acc = do {
     s \<leftarrow> py_item rel ''source'';
     i \<leftarrow> py_item ent ''id'';
     if py_eq s i then do {
       target \<leftarrow> resolve kg rel ''target'';
       if truthy_opt target then do {
         t \<leftarrow> py_item rel ''type'';
         outgoing_loop kg ent rest
           (acc @ [\<lparr>entity = the target, relationship = t, direction = Outgoing\<rparr>]) }
       else outgoing_loop kg ent rest acc }
     else outgoing_loop kg ent rest acc }"

text \<open>Lines 129-137: the relationships whose target is the entity.\<close>

fun incoming_loop :: "json \<Rightarrow> json \<Rightarrow> json list \<Rightarrow> related list \<Rightarrow> related list option" where
  "incoming_loop kg ent [] acc = Some acc"
| "incoming_loop kg ent (rel # rest) acc = do {
     s \<leftarrow> py_item rel ''target'';
     i \<leftarrow> py_item ent ''id'';
     if py_eq s i then do {
       source \<leftarrow> resolve kg rel ''source'';
       if truthy_opt source then do {
         t \<leftarrow> py_item rel ''type'';
         incoming_loop kg ent rest
           (acc @ [\<lparr>entity = the source, relationship = t, direction = Incoming\<rparr>]) }
       else incoming_loop kg ent rest acc }
     else incoming_loop kg ent rest acc }"

subsection \<open>Sorting with a key\<close>

fun is_str :: "json \<Rightarrow> bool" where
  "is_str (JStr s) = True"
| "is_str _ = False"

fun is_number :: "json \<Rightarrow> bool" where
  "is_number (JInt n) = True"
| "is_number (JBool b) = True"
| "is_number _ = False"

fun str_of :: "json \<Rightarrow> string" where
  "str_of (JStr s) = s"
| "str_of _ = []"

fun num_of :: "json \<Rightarrow> int" where
  "num_of (JInt n) = n"
| "num_of (JBool b) = (if b then 1 else 0)"
| "num_of _ = 0"

text \<open>
  \<^verbatim>\<open>xs.sort(key=f)\<close> and \<^verbatim>\<open>sorted(xs, key=f)\<close>: the keys are computed first, for every
  element; the sort is stable and compares the keys with \<^verbatim>\<open><\<close>. Two strs compare by
  code points, two numbers by value; with fewer than two elements nothing is compared.
  A str against a number, and None or a dict against anything, is a TypeError. (Keys that
  are all lists would be compared element by element; the model gives them as raising.)
\<close>

definition py_sort_key :: "('a \<Rightarrow> json option) \<Rightarrow> 'a list \<Rightarrow> 'a list option" where
  "py_sort_key f xs = do {
     ks \<leftarrow> those (map f xs);
     if length xs \<le> 1 then Some xs
     else if list_all is_str ks then Some (map snd (sort_key (\<lambda>p. str_of (fst p)) (zip ks xs)))
     else if list_all is_number ks then Some (map snd (sort_key (\<lambda>p. num_of (fst p)) (zip ks xs)))
     else None }"

text \<open>Line 143: \<^verbatim>\<open>key=lambda x: x['entity']['name']\<close>.\<close>

definition related_key :: "related \<Rightarrow> json option" where
  "related_key x = py_item (entity x) ''name''"

text \<open>Lines 144-148: what the lines printed for the items read.\<close>

fun related_print :: "related list \<Rightarrow> unit option" where
  "related_print [] = Some ()"
| "related_print (item # rest) = do {
     _ \<leftarrow> py_item (entity item) ''name'';
     _ \<leftarrow> py_item (entity item) ''type'';
     related_print rest }"

text \<open>Lines 115-148, for one matching entity: the list \<^verbatim>\<open>related\<close> as it is printed
  (empty when "No related entities found" is printed).\<close>

definition related_of :: "json \<Rightarrow> json \<Rightarrow> related list option" where
  "related_of kg ent = do {
     rels \<leftarrow> kg_seq kg ''relationships'';
     out \<leftarrow> outgoing_loop kg ent rels [];
     rels' \<leftarrow> kg_seq kg ''relationships'';
     both \<leftarrow> incoming_loop kg ent rels' out;
     if both = [] then Some []
     else do {
       sorted \<leftarrow> py_sort_key related_key both;
       _ \<leftarrow> related_print sorted;
       Some sorted } }"

text \<open>Lines 111-148: the loop over the matching entities; line 112 reads the name and
  the type of the entity before anything else.\<close>

fun related_loop :: "json \<Rightarrow> json list \<Rightarrow> (json \<times> related list) list option" where
  "related_loop kg [] = Some []"
| "related_loop kg (ent # rest) = do {
     _ \<leftarrow> py_item ent ''name'';
     _ \<leftarrow> py_item ent ''type'';
     r \<leftarrow> related_of kg ent;
     tl \<leftarrow> related_loop kg rest;
     Some ((ent, r) # tl) }"

text \<open>\<^verbatim>\<open>find_related\<close>: for every matching entity, in order, the entity and its printed
  neighbours; the empty list stands for "No entities found matching".\<close>

definition find_related :: "json \<Rightarrow> string \<Rightarrow> (json \<times> related list) list option" where
  "find_related kg name = do {
     entities \<leftarrow> name_matches kg name;
     related_loop kg entities }"

section \<open>find entity\<close>

text \<open>Lines 71-75: \<^verbatim>\<open>entity.get('properties', {}).items()\<close> needs a dict, and
  \<^verbatim>\<open>', '.join(value)\<close> on a list value needs every element to be a str.\<close>

definition entity_items :: "json \<Rightarrow> (string \<times> json) list option" where
  "entity_items ent = do {
     p \<leftarrow> py_get_default ent ''properties'' (JObj []);
     case p of JObj kvs \<Rightarrow> Some kvs | _ \<Rightarrow> None }"

fun props_print :: "(string \<times> json) list \<Rightarrow> unit option" where
  "props_print [] = Some ()"
| "props_print (kv # rest) =
     (case snd kv of
        JArr xs \<Rightarrow> if list_all is_str xs then props_print rest else None
      | _ \<Rightarrow> props_print rest)"

text \<open>Lines 80-90: the relationship lines printed for one entity. The second test is an
  \<^verbatim>\<open>elif\<close>: a relationship from the entity to itself is taken by the first branch only.\<close>

fun entity_rel_loop :: "json \<Rightarrow> json \<Rightarrow> json list \<Rightarrow> related list option" where
  "entity_rel_loop kg ent [] = Some []"
| "entity_rel_loop kg ent (rel # rest) = do {
     s \<leftarrow> py_item rel ''source'';
     i \<leftarrow> py_item ent ''id'';
     if py_eq s i then do {
       target \<leftarrow> resolve kg rel ''target'';
       if truthy_opt target then do {
         t \<leftarrow> py_item rel ''type'';
         _ \<leftarrow> py_item (the target) ''name'';
         _ \<leftarrow> py_item (the target) ''type'';
         tl \<leftarrow> entity_rel_loop kg ent rest;
         Some (\<lparr>entity = the target, relationship = t, direction = Outgoing\<rparr> # tl) }
       else entity_rel_loop kg ent rest }
     else do {
       g \<leftarrow> py_item rel ''target'';
       j \<leftarrow> py_item ent ''id'';
       if py_eq g j then do {
         source \<leftarrow> resolve kg rel ''source'';
         if truthy_opt source then do {
           _ \<leftarrow> py_item (the source) ''name'';
           _ \<leftarrow> py_item (the source) ''type'';
           t \<leftarrow> py_item rel ''type'';
           tl \<leftarrow> entity_rel_loop kg ent rest;
           Some (\<lparr>entity = the source, relationship = t, direction = Incoming\<rparr> # tl) }
         else entity_rel_loop kg ent rest }
       else entity_rel_loop kg ent rest } }"

text \<open>Lines 63-93: the loop over the matches; for each the entity and its relationship
  lines.\<close>

fun entity_loop :: "json \<Rightarrow> json list \<Rightarrow> (json \<times> related list) list option" where
  "entity_loop kg [] = Some []"
| "entity_loop kg (ent # rest) = do {
     _ \<leftarrow> py_item ent ''name'';
     _ \<leftarrow> py_item ent ''type'';
     _ \<leftarrow> py_item ent ''id'';
     _ \<leftarrow> py_item ent ''source_file'';
     _ \<leftarrow> py_item ent ''confidence'';
     items \<leftarrow> entity_items ent;
     _ \<leftarrow> props_print items;
     rels \<leftarrow> kg_seq kg ''relationships'';
     lines \<leftarrow> entity_rel_loop kg ent rels;
     tl \<leftarrow> entity_loop kg rest;
     Some ((ent, lines) # tl) }"

text \<open>\<^verbatim>\<open>find_entity\<close>: the matches in the order of the loop, each with its relationship
  lines; the empty list stands for "No entities found matching".\<close>

definition find_entity :: "json \<Rightarrow> string \<Rightarrow> (json \<times> related list) list option" where
  "find_entity kg name = do {
     matches \<leftarrow> name_matches kg name;
     entity_loop kg matches }"

section \<open>list types\<close>

text \<open>A set of parsed values, as the list of its elements in the order of their first
  insertion. \<^verbatim>\<open>s.add(v)\<close> hashes the value (a list and a dict cannot be hashed:
  TypeError) and keeps the set as it is when an equal element is there.\<close>

fun hashable :: "json \<Rightarrow> bool" where
  "hashable (JArr xs) = False"
| "hashable (JObj kvs) = False"
| "hashable _ = True"

definition set_add :: "json list \<Rightarrow> json \<Rightarrow> json list option" where
  "set_add s v =
     (if \<not> hashable v then None
      else if list_ex (\<lambda>x. py_eq x v) s then Some s else Some (s @ [v]))"

text \<open>Lines 153-159 and 262-263: \<^verbatim>\<open>for x in xs: types.add(x.get('type', dflt))\<close>.\<close>

fun types_loop :: "json \<Rightarrow> json list \<Rightarrow> json list \<Rightarrow> json list option" where
  "types_loop dflt [] s = Some s"
| "types_loop dflt (x # rest) s = do {
     t \<leftarrow> py_get_default x ''type'' dflt;
     s' \<leftarrow> set_add s t;
     types_loop dflt rest s' }"

text \<open>\<^verbatim>\<open>sorted(types)\<close>: the elements are their own keys.\<close>

definition py_sorted :: "json list \<Rightarrow> json list option" where
  "py_sorted xs = py_sort_key Some xs"

text \<open>Lines 164 and 170: \<^verbatim>\<open>sum(1 for e in xs if e.get('type') == t)\<close>; a missing type
  is Python's None here.\<close>

fun count_type :: "json list \<Rightarrow> json \<Rightarrow> nat option" where
  "count_type [] t = Some 0"
| "count_type (x # rest) t = do {
     v \<leftarrow> py_get x ''type'';
     n \<leftarrow> count_type rest t;
     Some ((if py_eq (case v of None \<Rightarrow> JNull | Some w \<Rightarrow> w) t then 1 else 0) + n) }"

text \<open>Lines 163-165 and 169-171: one printed line for each type, with its count.\<close>

fun counts_loop :: "json \<Rightarrow> string \<Rightarrow> json list \<Rightarrow> (json \<times> nat) list option" where
  "counts_loop kg key [] = Some []"
| "counts_loop kg key (t # rest) = do {
     xs \<leftarrow> kg_seq kg key;
     n \<leftarrow> count_type xs t;
     tl \<leftarrow> counts_loop kg key rest;
     Some ((t, n) # tl) }"

text \<open>
  \<^verbatim>\<open>list_types\<close>: the printed lines for the entity types and for the relationship
  types. Python walks a set in an order given by the hashes of its elements, and the
  hash of a str changes from one run of the interpreter to the next: \<open>order\<close> is the
  arrangement in which a set hands over its elements to \<^verbatim>\<open>sorted\<close>.
\<close>

definition list_types ::
  "(json list \<Rightarrow> json list) \<Rightarrow> json \<Rightarrow> ((json \<times> nat) list \<times> (json \<times> nat) list) option" where
  "list_types order kg = do {
     es \<leftarrow> kg_seq kg ''entities'';
     types \<leftarrow> types_loop (JStr ''unknown'') es [];
     rs \<leftarrow> kg_seq kg ''relationships'';
     rel_types \<leftarrow> types_loop (JStr ''unknown'') rs [];
     st \<leftarrow> py_sorted (order types);
     ec \<leftarrow> counts_loop kg ''entities'' st;
     srt \<leftarrow> py_sorted (order rel_types);
     rc \<leftarrow> counts_loop kg ''relationships'' srt;
     Some (ec, rc) }"

section \<open>list entities\<close>

text \<open>Lines 179-181: \<^verbatim>\<open>if entity.get('type', '').lower() == entity_type\<close>.\<close>

fun by_type_loop :: "string \<Rightarrow> json list \<Rightarrow> json list \<Rightarrow> json list option" where
  "by_type_loop ty [] acc = Some acc"
| "by_type_loop ty (ent # rest) acc = do {
     t \<leftarrow> py_get_default ent ''type'' (JStr []);
     l \<leftarrow> py_lower t;
     by_type_loop ty rest (if l = ty then acc @ [ent] else acc) }"

text \<open>Line 191: \<^verbatim>\<open>key=lambda x: x.get('name', '')\<close>.\<close>

definition name_key :: "json \<Rightarrow> json option" where
  "name_key x = py_get_default x ''name'' (JStr [])"

text \<open>Lines 193-195 read the source file with a default and the name without one.\<close>

fun by_type_print :: "json list \<Rightarrow> unit option" where
  "by_type_print [] = Some ()"
| "by_type_print (ent # rest) = do {
     _ \<leftarrow> py_get_default ent ''source_file'' (JStr ''unknown'');
     _ \<leftarrow> py_item ent ''name'';
     by_type_print rest }"

definition list_entities_by_type :: "json \<Rightarrow> string \<Rightarrow> json list option" where
  "list_entities_by_type kg entity_type = do {
     es \<leftarrow> kg_seq kg ''entities'';
     entities \<leftarrow> by_type_loop (lower entity_type) es [];
     if entities = [] then Some []
     else do {
       sorted \<leftarrow> py_sort_key name_key entities;
       _ \<leftarrow> by_type_print sorted;
       Some sorted } }"

section \<open>search\<close>

subsection \<open>\<^verbatim>\<open>json.dumps\<close>\<close>

text \<open>
  \<^verbatim>\<open>json.dumps\<close> with its defaults: \<^verbatim>\<open>", "\<close> between items, \<^verbatim>\<open>": "\<close> after a key, and
  strings in double quotes with \<^verbatim>\<open>ensure_ascii\<close>: the quote and the backslash get a
  backslash, five control characters their letter, and every other character outside
  the range from the space to the tilde becomes \<^verbatim>\<open>\u00XX\<close> with lowercase hex digits.
\<close>

definition hex_digit :: "nat \<Rightarrow> char" where
  "hex_digit n = (if n < 10 then char_of (48 + n) else char_of (87 + n))"

definition escape_char :: "char \<Rightarrow> string" where
  "escape_char c =
     (let n = (of_char c :: nat) in
      if n = 34 then [CHR 0x5C, CHR 0x22]
      else if n = 92 then [CHR 0x5C, CHR 0x5C]
      else if n = 10 then [CHR 0x5C, CHR ''n'']
      else if n = 13 then [CHR 0x5C, CHR ''r'']
      else if n = 9 then [CHR 0x5C, CHR ''t'']
      else if n = 8 then [CHR 0x5C, CHR ''b'']
      else if n = 12 then [CHR 0x5C, CHR ''f'']
      else if n < 32 \<or> 126 < n
        then [CHR 0x5C, CHR ''u'', CHR ''0'', CHR ''0'', hex_digit (n div 16), hex_digit (n mod 16)]
      else [c])"

definition encode_str :: "string \<Rightarrow> string" where
  "encode_str s = [CHR 0x22] @ concat (map escape_char s) @ [CHR 0x22]"

fun digits :: "nat \<Rightarrow> string" where
  "digits n = (if n < 10 then [char_of (48 + n)] else digits (n div 10) @ [char_of (48 + n mod 10)])"

definition show_int :: "int \<Rightarrow> string" where
  "show_int i = (if i < 0 then CHR ''-'' # digits (nat (- i)) else digits (nat i))"

fun str_join :: "string \<Rightarrow> string list \<Rightarrow> string" where
  "str_join sep [] = []"
| "str_join sep [x] = x"
| "str_join sep (x # y # ys) = x @ sep @ str_join sep (y # ys)"

fun json_dumps :: "json \<Rightarrow> string" where
  "json_dumps JNull = ''null''"
| "json_dumps (JBool b) = (if b then ''true'' else ''false'')"
| "json_dumps (JInt i) = show_int i"
| "json_dumps (JStr s) = encode_str s"
| "json_dumps (JArr xs) = ''['' @ str_join '', '' (map json_dumps xs) @ '']''"
| "json_dumps (JObj kvs) =
     ''{'' @ str_join '', '' (map (\<lambda>kv. encode_str (fst kv) @ '': '' @ json_dumps (snd kv)) kvs) @ ''}''"

subsection \<open>The results\<close>

text \<open>An element of \<^verbatim>\<open>results\<close>: an entity, or a relationship with its two resolved
  ends.\<close>

datatype search_result =
    EntityResult json
  | RelationshipResult json json json

text \<open>Lines 204-209.\<close>

fun search_entities :: "string \<Rightarrow> json list \<Rightarrow> search_result list \<Rightarrow> search_result list" where
  "search_entities term [] results = results"
| "search_entities term (ent # rest) results =
     search_entities term rest
       (if str_in term (lower (json_dumps ent)) then results @ [EntityResult ent] else results)"

text \<open>Lines 212-224: both ends are resolved before either is tested.\<close>

fun search_rels :: "json \<Rightarrow> string \<Rightarrow> json list \<Rightarrow> search_result list \<Rightarrow> search_result list option" where
  "search_rels kg term [] results = Some results"
| "search_rels kg term (rel # rest) results =
     (if str_in term (lower (json_dumps rel)) then do {
        source \<leftarrow> resolve kg rel ''source'';
        target \<leftarrow> resolve kg rel ''target'';
        search_rels kg term rest
          (if truthy_opt source \<and> truthy_opt target
           then results @ [RelationshipResult rel (the source) (the target)] else results) }
      else search_rels kg term rest results)"

text \<open>Lines 233-253, as far as they can raise: the name and the type of an entity are
  read without a default, and \<^verbatim>\<open>.items()\<close> needs the properties to be a dict. Which
  properties are listed under an entity depends on \<^verbatim>\<open>str\<close> of their values; the list
  \<^verbatim>\<open>results\<close> does not.\<close>

fun search_print :: "search_result list \<Rightarrow> unit option" where
  "search_print [] = Some ()"
| "search_print (EntityResult ent # rest) = do {
     _ \<leftarrow> py_item ent ''name'';
     _ \<leftarrow> py_item ent ''type'';
     _ \<leftarrow> py_get_default ent ''source_file'' (JStr ''unknown'');
     _ \<leftarrow> entity_items ent;
     search_print rest }"
| "search_print (RelationshipResult rel source target # rest) = do {
     _ \<leftarrow> py_item source ''name'';
     _ \<leftarrow> py_item rel ''type'';
     _ \<leftarrow> py_item target ''name'';
     _ \<leftarrow> py_get_default rel ''source_file'' (JStr ''unknown'');
     _ \<leftarrow> py_get_default rel ''confidence'' (JStr ''unknown'');
     search_print rest }"

definition search :: "json \<Rightarrow> string \<Rightarrow> search_result list option" where
  "search kg term = do {
     es \<leftarrow> kg_seq kg ''entities'';
     rs \<leftarrow> kg_seq kg ''relationships'';
     results \<leftarrow> search_rels kg (lower term) rs (search_entities (lower term) es []);
     _ \<leftarrow> search_print results;
     Some results }"

section \<open>info\<close>

record info =
  entity_count :: nat
  rel_count :: nat
  note_count :: nat
  entity_type_count :: nat
  rel_type_count :: nat
  metadata_items :: "(string \<times> json) list"

text \<open>\<^verbatim>\<open>show_info\<close>: the five printed counts and the metadata lines.\<close>

definition show_info :: "json \<Rightarrow> info option" where
  "show_info kg = do {
     ev \<leftarrow> py_get_default kg ''entities'' (JArr []);
     ec \<leftarrow> py_len ev;
     rv \<leftarrow> py_get_default kg ''relationships'' (JArr []);
     rc \<leftarrow> py_len rv;
     nv \<leftarrow> py_get_default kg ''notes'' (JObj []);
     nc \<leftarrow> py_len nv;
     es \<leftarrow> kg_seq kg ''entities'';
     entity_types \<leftarrow> types_loop JNull es [];
     rs \<leftarrow> kg_seq kg ''relationships'';
     rel_types \<leftarrow> types_loop JNull rs [];
     metadata \<leftarrow> py_get_default kg ''metadata'' (JObj []);
     items \<leftarrow> (case metadata of JObj kvs \<Rightarrow> Some kvs | _ \<Rightarrow> None);
     Some \<lparr>entity_count = ec, rel_count = rc, note_count = nc,
           entity_type_count = length entity_types, rel_type_count = length rel_types,
           metadata_items = items\<rparr> }"

section \<open>The commands on a store of list objects\<close>

text \<open>
  A Python list is an object: \<^verbatim>\<open>append\<close> and \<^verbatim>\<open>sort\<close> change it in place, for everybody
  who holds it. Here the list objects live in a store, at an address each. The
  elements are parsed values, or the dicts that \<^verbatim>\<open>find_related\<close> and \<^verbatim>\<open>search\<close> build. A
  set that is filled with \<^verbatim>\<open>add\<close> has a cell as well. No command assigns to a key of a
  dict, so the dicts stay values.
\<close>

datatype elem = EJ json | ER related | ES search_result

type_synonym heap = "elem list list"

fun un_ej :: "elem \<Rightarrow> json" where
  "un_ej (EJ v) = v"
| "un_ej _ = JNull"

fun un_er :: "elem \<Rightarrow> related" where
  "un_er (ER r) = r"
| "un_er _ = \<lparr>entity = JNull, relationship = JNull, direction = Outgoing\<rparr>"

fun un_es :: "elem \<Rightarrow> search_result" where
  "un_es (ES r) = r"
| "un_es _ = EntityResult JNull"

text \<open>The loaded document: the top-level dict, whose value under a key is a list object
  of the store (as the entity and the relationship sequences are) or a value.\<close>

datatype slot = Ref nat | Val json

type_synonym root = "(string \<times> slot) list"

text \<open>The document as a value: every reference replaced by the list it points to.\<close>

definition deref :: "root \<Rightarrow> heap \<Rightarrow> json" where
  "deref root h =
     JObj (map (\<lambda>kv. (fst kv, case snd kv of Ref a \<Rightarrow> JArr (map un_ej (h ! a)) | Val v \<Rightarrow> v)) root)"

text \<open>\<^verbatim>\<open>x = []\<close> and \<^verbatim>\<open>x = set()\<close>: a new object, at the next free address.\<close>

definition new_list :: "heap \<Rightarrow> nat \<times> heap" where
  "new_list h = (length h, h @ [[]])"

text \<open>A computation on the store gives the store it leaves behind, and a result unless
  it raises.\<close>

definition seq_h :: "'a option \<times> heap \<Rightarrow> ('a \<Rightarrow> heap \<Rightarrow> 'b option \<times> heap) \<Rightarrow> 'b option \<times> heap" where
  "seq_h m f = (case m of (None, h) \<Rightarrow> (None, h) | (Some x, h) \<Rightarrow> f x h)"

text \<open>
  A \<^verbatim>\<open>for\<close> loop whose body changes the object at the address \<open>a\<close>: \<open>step\<close> gives, from
  the store, the element of the iteration and the present content of the object, its
  new content. (In every loop of the commands the object changed is one made just
  before the loop, and not the sequence iterated over, which therefore is the sequence
  the loop started on.)
\<close>

fun update_each ::
  "(heap \<Rightarrow> 'x \<Rightarrow> elem list \<Rightarrow> elem list option) \<Rightarrow> nat \<Rightarrow> 'x list \<Rightarrow> heap \<Rightarrow> unit option \<times> heap" where
  "update_each step a [] h = (Some (), h)"
| "update_each step a (x # xs) h =
     (case step h x (h ! a) of
        None \<Rightarrow> (None, h)
      | Some ys \<Rightarrow> update_each step a xs (h[a := ys]))"

text \<open>\<^verbatim>\<open>x.sort(key=f)\<close>: the object at the address is replaced by its sorted content.\<close>

definition sort_at :: "(elem \<Rightarrow> json option) \<Rightarrow> nat \<Rightarrow> heap \<Rightarrow> unit option \<times> heap" where
  "sort_at key a h =
     (case py_sort_key key (h ! a) of None \<Rightarrow> (None, h) | Some ys \<Rightarrow> (Some (), h[a := ys]))"

subsection \<open>The bodies of the loops\<close>

text \<open>Lines 55-57 and 102-104.\<close>

definition match_step :: "string \<Rightarrow> json \<Rightarrow> elem list \<Rightarrow> elem list option" where
  "match_step name ent old = do {
     n \<leftarrow> py_get_default ent ''name'' (JStr []);
     l \<leftarrow> py_lower n;
     Some (if str_in name l then old @ [EJ ent] else old) }"

text \<open>Lines 118-126.\<close>

definition outgoing_step :: "json \<Rightarrow> json \<Rightarrow> json \<Rightarrow> elem list \<Rightarrow> elem list option" where
  "outgoing_step kg ent rel old = do {
     s \<leftarrow> py_item rel ''source'';
     i \<leftarrow> py_item ent ''id'';
     if py_eq s i then do {
       target \<leftarrow> resolve kg rel ''target'';
       if truthy_opt target then do {
         t \<leftarrow> py_item rel ''type'';
         Some (old @ [ER \<lparr>entity = the target, relationship = t, direction = Outgoing\<rparr>]) }
       else Some old }
     else Some old }"

text \<open>Lines 129-137.\<close>

definition incoming_step :: "json \<Rightarrow> json \<Rightarrow> json \<Rightarrow> elem list \<Rightarrow> elem list option" where
  "incoming_step kg ent rel old = do {
     s \<leftarrow> py_item rel ''target'';
     i \<leftarrow> py_item ent ''id'';
     if py_eq s i then do {
       source \<leftarrow> resolve kg rel ''source'';
       if truthy_opt source then do {
         t \<leftarrow> py_item rel ''type'';
         Some (old @ [ER \<lparr>entity = the source, relationship = t, direction = Incoming\<rparr>]) }
       else Some old }
     else Some old }"

text \<open>Lines 154-155 and 158-159.\<close>

definition type_step :: "json \<Rightarrow> json \<Rightarrow> elem list \<Rightarrow> elem list option" where
  "type_step dflt x old = do {
     t \<leftarrow> py_get_default x ''type'' dflt;
     s \<leftarrow> set_add (map un_ej old) t;
     Some (map EJ s) }"

text \<open>Lines 179-181.\<close>

definition by_type_step :: "string \<Rightarrow> json \<Rightarrow> elem list \<Rightarrow> elem list option" where
  "by_type_step ty ent old = do {
     t \<leftarrow> py_get_default ent ''type'' (JStr []);
     l \<leftarrow> py_lower t;
     Some (if l = ty then old @ [EJ ent] else old) }"

text \<open>Lines 204-209.\<close>

definition search_entity_step :: "string \<Rightarrow> json \<Rightarrow> elem list \<Rightarrow> elem list option" where
  "search_entity_step term ent old =
     Some (if str_in term (lower (json_dumps ent)) then old @ [ES (EntityResult ent)] else old)"

text \<open>Lines 212-224.\<close>

definition search_rel_step :: "json \<Rightarrow> string \<Rightarrow> json \<Rightarrow> elem list \<Rightarrow> elem list option" where
  "search_rel_step kg term rel old =
     (if str_in term (lower (json_dumps rel)) then do {
        source \<leftarrow> resolve kg rel ''source'';
        target \<leftarrow> resolve kg rel ''target'';
        Some (if truthy_opt source \<and> truthy_opt target
              then old @ [ES (RelationshipResult rel (the source) (the target))] else old) }
      else Some old)"

subsection \<open>The commands\<close>

definition find_entity_h :: "root \<Rightarrow> string \<Rightarrow> heap \<Rightarrow> (json \<times> related list) list option \<times> heap" where
  "find_entity_h root name h =
     (let (matches, h1) = new_list h in
      seq_h (kg_seq (deref root h1) ''entities'', h1) (\<lambda>es h2.
      seq_h (update_each (\<lambda>_. match_step (lower name)) matches es h2) (\<lambda>_ h3.
        (entity_loop (deref root h3) (map un_ej (h3 ! matches)), h3))))"

definition related_of_h :: "root \<Rightarrow> json \<Rightarrow> heap \<Rightarrow> related list option \<times> heap" where
  "related_of_h root ent h =
     (let (related, h1) = new_list h in
      seq_h (kg_seq (deref root h1) ''relationships'', h1) (\<lambda>rels h2.
      seq_h (update_each (\<lambda>h. outgoing_step (deref root h) ent) related rels h2) (\<lambda>_ h3.
      seq_h (kg_seq (deref root h3) ''relationships'', h3) (\<lambda>rels' h4.
      seq_h (update_each (\<lambda>h. incoming_step (deref root h) ent) related rels' h4) (\<lambda>_ h5.
        if h5 ! related = [] then (Some [], h5)
        else
          seq_h (sort_at (\<lambda>x. related_key (un_er x)) related h5) (\<lambda>_ h6.
          seq_h (related_print (map un_er (h6 ! related)), h6) (\<lambda>_ h7.
            (Some (map un_er (h7 ! related)), h7))))))))"

fun related_loop_h :: "root \<Rightarrow> json list \<Rightarrow> heap \<Rightarrow> (json \<times> related list) list option \<times> heap" where
  "related_loop_h root [] h = (Some [], h)"
| "related_loop_h root (ent # rest) h =
     seq_h (py_item ent ''name'', h) (\<lambda>_ h1.
     seq_h (py_item ent ''type'', h1) (\<lambda>_ h2.
     seq_h (related_of_h root ent h2) (\<lambda>r h3.
     seq_h (related_loop_h root rest h3) (\<lambda>tl h4.
       (Some ((ent, r) # tl), h4)))))"

definition find_related_h :: "root \<Rightarrow> string \<Rightarrow> heap \<Rightarrow> (json \<times> related list) list option \<times> heap" where
  "find_related_h root name h =
     (let (entities, h1) = new_list h in
      seq_h (kg_seq (deref root h1) ''entities'', h1) (\<lambda>es h2.
      seq_h (update_each (\<lambda>_. match_step (lower name)) entities es h2) (\<lambda>_ h3.
        related_loop_h root (map un_ej (h3 ! entities)) h3)))"

definition list_types_h ::
  "(json list \<Rightarrow> json list) \<Rightarrow> root \<Rightarrow> heap \<Rightarrow> ((json \<times> nat) list \<times> (json \<times> nat) list) option \<times> heap" where
  "list_types_h order root h =
     (let (types, h1) = new_list h in
      seq_h (kg_seq (deref root h1) ''entities'', h1) (\<lambda>es h2.
      seq_h (update_each (\<lambda>_. type_step (JStr ''unknown'')) types es h2) (\<lambda>_ h3.
      (let (rel_types, h4) = new_list h3 in
      seq_h (kg_seq (deref root h4) ''relationships'', h4) (\<lambda>rs h5.
      seq_h (update_each (\<lambda>_. type_step (JStr ''unknown'')) rel_types rs h5) (\<lambda>_ h6.
        (do {
           st \<leftarrow> py_sorted (order (map un_ej (h6 ! types)));
           ec \<leftarrow> counts_loop (deref root h6) ''entities'' st;
           srt \<leftarrow> py_sorted (order (map un_ej (h6 ! rel_types)));
           rc \<leftarrow> counts_loop (deref root h6) ''relationships'' srt;
           Some (ec, rc) }, h6)))))))"

definition list_entities_by_type_h :: "root \<Rightarrow> string \<Rightarrow> heap \<Rightarrow> json list option \<times> heap" where
  "list_entities_by_type_h root entity_type h =
     (let (entities, h1) = new_list h in
      seq_h (kg_seq (deref root h1) ''entities'', h1) (\<lambda>es h2.
      seq_h (update_each (\<lambda>_. by_type_step (lower entity_type)) entities es h2) (\<lambda>_ h3.
        if h3 ! entities = [] then (Some [], h3)
        else
          seq_h (sort_at (\<lambda>x. name_key (un_ej x)) entities h3) (\<lambda>_ h4.
          seq_h (by_type_print (map un_ej (h4 ! entities)), h4) (\<lambda>_ h5.
            (Some (map un_ej (h5 ! entities)), h5))))))"

definition search_h :: "root \<Rightarrow> string \<Rightarrow> heap \<Rightarrow> search_result list option \<times> heap" where
  "search_h root term h =
     (let (results, h1) = new_list h in
      seq_h (kg_seq (deref root h1) ''entities'', h1) (\<lambda>es h2.
      seq_h (update_each (\<lambda>_. search_entity_step (lower term)) results es h2) (\<lambda>_ h3.
      seq_h (kg_seq (deref root h3) ''relationships'', h3) (\<lambda>rs h4.
      seq_h (update_each (\<lambda>h. search_rel_step (deref root h) (lower term)) results rs h4) (\<lambda>_ h5.
      seq_h (search_print (map un_es (h5 ! results)), h5) (\<lambda>_ h6.
        (Some (map un_es (h6 ! results)), h6)))))))"

text \<open>\<^verbatim>\<open>show_info\<close> builds its two sets in one expression each and changes no object.\<close>

definition show_info_h :: "root \<Rightarrow> heap \<Rightarrow> info option \<times> heap" where
  "show_info_h root h = (show_info (deref root h), h)"

text \<open>Every reference of the document points into the store.\<close>

definition valid_refs :: "root \<Rightarrow> heap \<Rightarrow> bool" where
  "valid_refs root h = list_all (\<lambda>kv. case snd kv of Ref a \<Rightarrow> a < length h | Val v \<Rightarrow> True) root"

text \<open>The store \<open>h'\<close> goes on from the store \<open>h\<close> with its first \<open>n\<close> objects as they
  were.\<close>

definition keeps :: "nat \<Rightarrow> heap \<Rightarrow> heap \<Rightarrow> bool" where
  "keeps n h h' = (n \<le> length h \<and> length h \<le> length h' \<and> take n h' = take n h)"

text \<open>After a command: every object that was in the store is as it was, and so is the
  document.\<close>

definition untouched :: "root \<Rightarrow> heap \<Rightarrow> heap \<Rightarrow> bool" where
  "untouched root h h' = (take (length h) h' = h \<and> deref root h' = deref root h)"

section \<open>Documents of the data model\<close>

definition has_str :: "(string \<times> json) list \<Rightarrow> string \<Rightarrow> bool" where
  "has_str kvs k = (case map_of kvs k of Some (JStr s) \<Rightarrow> True | _ \<Rightarrow> False)"

text \<open>An entity as the traversal needs it: a dict whose id, name and type are strs.\<close>

fun entity_core :: "json \<Rightarrow> bool" where
  "entity_core (JObj kvs) = (has_str kvs ''id'' \<and> has_str kvs ''name'' \<and> has_str kvs ''type'')"
| "entity_core _ = False"

text \<open>An entity with every field of the data model: also a source file and a confidence,
  and properties (when there are any) that map a key to a scalar or to a list of strs.\<close>

fun entity_full :: "json \<Rightarrow> bool" where
  "entity_full (JObj kvs) =
     (entity_core (JObj kvs) \<and> map_of kvs ''source_file'' \<noteq> None \<and> map_of kvs ''confidence'' \<noteq> None \<and>
      (case map_of kvs ''properties'' of
         None \<Rightarrow> True
       | Some (JObj ps) \<Rightarrow> list_all (\<lambda>kv. case snd kv of JArr xs \<Rightarrow> list_all is_str xs | _ \<Rightarrow> True) ps
       | Some _ \<Rightarrow> False))"
| "entity_full _ = False"

text \<open>A relationship: a dict whose source, target and type are strs.\<close>

fun wf_rel :: "json \<Rightarrow> bool" where
  "wf_rel (JObj kvs) = (has_str kvs ''source'' \<and> has_str kvs ''target'' \<and> has_str kvs ''type'')"
| "wf_rel _ = False"

text \<open>A document whose entities and relationships (each an empty sequence when the key
  is missing) are of the data model. The ids need not be different, and an endpoint of a
  relationship need not be the id of an entity.\<close>

definition wf_kg :: "json \<Rightarrow> bool" where
  "wf_kg kg =
     (case (kg_seq kg ''entities'', kg_seq kg ''relationships'') of
        (Some es, Some rs) \<Rightarrow> list_all entity_core es \<and> list_all wf_rel rs
      | _ \<Rightarrow> False)"

definition wf_kg_full :: "json \<Rightarrow> bool" where
  "wf_kg_full kg =
     (case (kg_seq kg ''entities'', kg_seq kg ''relationships'') of
        (Some es, Some rs) \<Rightarrow> list_all entity_full es \<and> list_all wf_rel rs
      | _ \<Rightarrow> False)"

text \<open>The name, the id and the type of an entity, and an endpoint of a relationship, as
  strs (empty when there is none).\<close>

definition field :: "json \<Rightarrow> string \<Rightarrow> string" where
  "field v k = (case py_item v k of Some (JStr s) \<Rightarrow> s | _ \<Rightarrow> [])"

section \<open>Resolved neighbours\<close>

text \<open>The first entity of the sequence that bears an id.\<close>

definition lookup_id :: "json list \<Rightarrow> string \<Rightarrow> json option" where
  "lookup_id es i = find (\<lambda>e. field e ''id'' = i) es"

text \<open>A relationship with an end that does not resolve to an entity (a dangling edge).\<close>

definition dangling :: "json \<Rightarrow> json \<Rightarrow> bool" where
  "dangling kg rel = (resolve kg rel ''source'' = Some None \<or> resolve kg rel ''target'' = Some None)"

text \<open>The document without its dangling edges: the same dict, with the dangling
  relationships taken out of the list under \<^verbatim>\<open>relationships\<close>.\<close>

definition drop_dangling :: "json \<Rightarrow> json" where
  "drop_dangling kg =
     (case kg of
        JObj kvs \<Rightarrow>
          JObj (map (\<lambda>kv. if fst kv = ''relationships''
                           then (fst kv, case snd kv of
                                   JArr rs \<Rightarrow> JArr (filter (\<lambda>r. \<not> dangling kg r) rs)
                                 | v \<Rightarrow> v)
                           else kv) kvs)
      | _ \<Rightarrow> kg)"

text \<open>What one relationship adds to the results of a search: itself with its two
  resolved ends, when its serialization contains the term.\<close>

definition rel_result :: "json list \<Rightarrow> string \<Rightarrow> json \<Rightarrow> search_result option" where
  "rel_result es term rel =
     (if str_in term (lower (json_dumps rel))
      then (case (lookup_id es (field rel ''source''), lookup_id es (field rel ''target'')) of
              (Some s, Some g) \<Rightarrow> Some (RelationshipResult rel s g)
            | _ \<Rightarrow> None)
      else None)"

text \<open>The entity \<open>e\<close> is the first of the sequence, in its order, that bears the id.\<close>

definition first_bearer :: "json list \<Rightarrow> string \<Rightarrow> json \<Rightarrow> bool" where
  "first_bearer es i e =
     (\<exists>n < length es. es ! n = e \<and> field e ''id'' = i \<and> (\<forall>m < n. field (es ! m) ''id'' \<noteq> i))"

text \<open>What one relationship adds to the neighbours of an entity: its resolved target
  when the entity is its source, its resolved source when the entity is its target.\<close>

definition out_item :: "json list \<Rightarrow> json \<Rightarrow> json \<Rightarrow> related option" where
  "out_item es ent rel =
     (if field rel ''source'' = field ent ''id''
      then map_option (\<lambda>t. \<lparr>entity = t, relationship = JStr (field rel ''type''), direction = Outgoing\<rparr>)
             (lookup_id es (field rel ''target''))
      else None)"

definition in_item :: "json list \<Rightarrow> json \<Rightarrow> json \<Rightarrow> related option" where
  "in_item es ent rel =
     (if field rel ''target'' = field ent ''id''
      then map_option (\<lambda>t. \<lparr>entity = t, relationship = JStr (field rel ''type''), direction = Incoming\<rparr>)
             (lookup_id es (field rel ''source''))
      else None)"

text \<open>What one relationship adds to the relationship lines of an entity in
  \<^verbatim>\<open>find_entity\<close>: the incoming line is looked at only when the entity is not the
  source.\<close>

definition entity_line :: "json list \<Rightarrow> json \<Rightarrow> json \<Rightarrow> related option" where
  "entity_line es ent rel =
     (if field rel ''source'' = field ent ''id'' then out_item es ent rel else in_item es ent rel)"

text \<open>A listed line or neighbour \<open>x\<close> of the entity \<open>e\<close> comes from a relationship of the
  document, bears its type, and shows the first bearer of the id at the other end.\<close>

definition from_first_bearer :: "json list \<Rightarrow> json list \<Rightarrow> json \<Rightarrow> related \<Rightarrow> bool" where
  "from_first_bearer es rels e x =
     (\<exists>R \<in> set rels. relationship x = JStr (field R ''type'') \<and>
        ((direction x = Outgoing \<and> field R ''source'' = field e ''id'' \<and>
          first_bearer es (field R ''target'') (entity x)) \<or>
         (direction x = Incoming \<and> field R ''target'' = field e ''id'' \<and>
          first_bearer es (field R ''source'') (entity x))))"

definition neighbour_name :: "related \<Rightarrow> string" where
  "neighbour_name x = field (entity x) ''name''"

text \<open>The outgoing items in the order of the relationship sequence, then the incoming
  items in that order, sorted by the name of the neighbour with a stable sort.\<close>

definition neighbours :: "json list \<Rightarrow> json list \<Rightarrow> json \<Rightarrow> related list" where
  "neighbours es rels ent =
     sort_key neighbour_name
       (List.map_filter (out_item es ent) rels @ List.map_filter (in_item es ent) rels)"

section \<open>Shapes of documents and of names\<close>

text \<open>The sequence under a key is missing or is the empty list.\<close>

definition seq_empty :: "json \<Rightarrow> string \<Rightarrow> bool" where
  "seq_empty kg k =
     (case py_get kg k of Some None \<Rightarrow> True | Some (Some (JArr [])) \<Rightarrow> True | _ \<Rightarrow> False)"

text \<open>The value under a key is missing or is a dict, as the data model has it for the
  notes and the metadata.\<close>

definition mapping_or_absent :: "json \<Rightarrow> string \<Rightarrow> bool" where
  "mapping_or_absent kg k =
     (case py_get kg k of Some None \<Rightarrow> True | Some (Some (JObj kvs)) \<Rightarrow> True | _ \<Rightarrow> False)"

text \<open>The entries of the dict under a key (none when the key is missing).\<close>

definition entries :: "json \<Rightarrow> string \<Rightarrow> (string \<times> json) list" where
  "entries kg k = (case py_get kg k of Some (Some (JObj kvs)) \<Rightarrow> kvs | _ \<Rightarrow> [])"

text \<open>An order of iteration hands over the elements of a set, each once.\<close>

definition arrangement :: "(json list \<Rightarrow> json list) \<Rightarrow> bool" where
  "arrangement order = (\<forall>s. mset (order s) = mset s)"

text \<open>The characters that \<^verbatim>\<open>json.dumps\<close> writes as they are: from the space to the tilde,
  without the double quote and the backslash.\<close>

definition plain_char :: "char \<Rightarrow> bool" where
  "plain_char c =
     (let n = (of_char c :: nat) in 32 \<le> n \<and> n \<le> 126 \<and> n \<noteq> 34 \<and> n \<noteq> 92)"

section \<open>Example documents\<close>

definition ex_entity :: "string \<Rightarrow> string \<Rightarrow> string \<Rightarrow> json" where
  "ex_entity i n t =
     JObj [(''id'', JStr i), (''name'', JStr n), (''type'', JStr t),
           (''source_file'', JStr ''notes.md''), (''confidence'', JInt 1)]"

definition ex_rel :: "string \<Rightarrow> string \<Rightarrow> string \<Rightarrow> json" where
  "ex_rel s t ty = JObj [(''source'', JStr s), (''target'', JStr t), (''type'', JStr ty)]"

definition ex_kg :: "json list \<Rightarrow> json list \<Rightarrow> json" where
  "ex_kg es rs = JObj [(''entities'', JArr es), (''relationships'', JArr rs)]"

text \<open>Two entities whose names contain "Alpha".\<close>

definition alpha_kg :: json where
  "alpha_kg = ex_kg [ex_entity ''e1'' ''Project Alpha'' ''project'',
                     ex_entity ''e2'' ''Alpha Team'' ''team''] []"

text \<open>Alice works for Acme.\<close>

definition alice :: json where
  "alice = ex_entity ''e1'' ''Alice'' ''person''"

definition acme :: json where
  "acme = ex_entity ''e2'' ''Acme'' ''organization''"

definition works_kg :: json where
  "works_kg = ex_kg [alice, acme] [ex_rel ''e1'' ''e2'' ''works_for'']"

text \<open>Two relationships between Ann and Bob: the first into Ann, the second out of
  her.\<close>

definition ann :: json where
  "ann = ex_entity ''a'' ''Ann'' ''person''"

definition bob :: json where
  "bob = ex_entity ''b'' ''Bob'' ''person''"

definition tie_kg :: json where
  "tie_kg = ex_kg [ann, bob] [ex_rel ''b'' ''a'' ''manages'', ex_rel ''a'' ''b'' ''mentors'']"

text \<open>Two entities with the id \<^verbatim>\<open>e1\<close>, and a relationship to that id.\<close>

definition dup_kg :: json where
  "dup_kg = ex_kg [ex_entity ''e1'' ''First'' ''person'', ex_entity ''e1'' ''Second'' ''person'',
                   ex_entity ''e2'' ''Third'' ''person'']
                  [ex_rel ''e2'' ''e1'' ''knows'']"


text \<open>One entity without a type.\<close>

definition orphan_kg :: json where
  "orphan_kg = ex_kg [JObj [(''id'', JStr ''e1''), (''name'', JStr ''Orphan'')]] []"

text \<open>No entities and no relationships, and one note.\<close>

definition notes_kg :: json where
  "notes_kg = JObj [(''entities'', JArr []), (''relationships'', JArr []),
                    (''notes'', JObj [(''n1'', JStr ''remember the milk'')])]"

text \<open>An entity with a field named \<^verbatim>\<open>caf\<close> followed by the letter e with an acute accent
  (code point 0xE9).\<close>

definition accent_kg :: json where
  "accent_kg = ex_kg [JObj [(''id'', JStr ''e1''), (''name'', JStr ''Bistro''), (''type'', JStr ''place''),
                            (''caf'' @ [CHR 0xE9], JStr ''yes'')]] []"

text \<open>A store with the sequences of a document in it: Bob before Ann, and the two
  relationships between them.\<close>

definition ex_root :: root where
  "ex_root = [(''entities'', Ref 0), (''relationships'', Ref 1)]"

definition ex_heap :: heap where
  "ex_heap = [[EJ bob, EJ ann], [EJ (ex_rel ''b'' ''a'' ''manages''), EJ (ex_rel ''a'' ''b'' ''mentors'')]]"

section \<open>Properties of the helpers\<close>

lemma starts_with_iff: "starts_with t s = (\<exists>v. s = t @ v)"
  by (induction t s rule: starts_with.induct) auto

lemma str_in_iff: "str_in t s = (\<exists>u v. s = u @ t @ v)"
proof (induction s)
  case Nil
  then show ?case by simp
next
  case (Cons d s)
  show ?case
  proof
    assume "str_in t (d # s)"
    then consider "starts_with t (d # s)" | "str_in t s" by auto
    then show "\<exists>u v. d # s = u @ t @ v"
    proof cases
      case 1
      then obtain v where "d # s = t @ v" unfolding starts_with_iff ..
      then have "d # s = [] @ t @ v" by simp
      then show ?thesis by blast
    next
      case 2
      then obtain u v where "s = u @ t @ v" using Cons.IH by blast
      then have "d # s = (d # u) @ t @ v" by simp
      then show ?thesis by blast
    qed
  next
    assume "\<exists>u v. d # s = u @ t @ v"
    then obtain u v where uv: "d # s = u @ t @ v" by blast
    show "str_in t (d # s)"
    proof (cases u)
      case Nil
      then have "starts_with t (d # s)" using uv starts_with_iff by auto
      then show ?thesis by simp
    next
      case (Cons a u')
      then have "s = u' @ t @ v" using uv by simp
      then have "str_in t s" using Cons.IH by blast
      then show ?thesis by simp
    qed
  qed
qed

lemma str_in_refl: "str_in s s"
  unfolding str_in_iff by (rule exI [of _ "[]"], rule exI [of _ "[]"]) simp

lemma entity_core_item:
  assumes "entity_core e"
  shows "py_item e ''id'' = Some (JStr (field e ''id''))"
    and "py_item e ''name'' = Some (JStr (field e ''name''))"
    and "py_item e ''type'' = Some (JStr (field e ''type''))"
  using assms
  by (cases e; auto simp: has_str_def field_def split: option.splits json.splits)+

lemma entity_core_name:
  assumes "entity_core e"
  shows "py_get_default e ''name'' (JStr []) = Some (JStr (field e ''name''))"
  using assms
  by (cases e; auto simp: has_str_def field_def py_get_default_def split: option.splits json.splits)

lemma entity_core_truthy: "entity_core e \<Longrightarrow> truthy e"
  by (cases e; auto simp: has_str_def split: option.splits)

lemma wf_rel_item:
  assumes "wf_rel r"
  shows "py_item r ''source'' = Some (JStr (field r ''source''))"
    and "py_item r ''target'' = Some (JStr (field r ''target''))"
    and "py_item r ''type'' = Some (JStr (field r ''type''))"
  using assms
  by (cases r; auto simp: has_str_def field_def split: option.splits json.splits)+

lemma match_loop_filter:
  "list_all entity_core es \<Longrightarrow>
   match_loop n es acc = Some (acc @ filter (\<lambda>e. str_in n (lower (field e ''name''))) es)"
  by (induction es arbitrary: acc) (auto simp: entity_core_name)

lemma first_with_id_find:
  "list_all entity_core es \<Longrightarrow> py_item r k = Some (JStr t) \<Longrightarrow>
   first_with_id es r k = Some (find (\<lambda>e. field e ''id'' = t) es)"
  by (induction es) (auto simp: entity_core_item)

lemma resolve_find:
  "kg_seq kg ''entities'' = Some es \<Longrightarrow> list_all entity_core es \<Longrightarrow>
   py_item r k = Some (JStr t) \<Longrightarrow>
   resolve kg r k = Some (find (\<lambda>e. field e ''id'' = t) es)"
  by (simp add: resolve_def first_with_id_find)

lemma find_core:
  "list_all entity_core es \<Longrightarrow> find P es = Some e \<Longrightarrow> entity_core e \<and> e \<in> set es \<and> P e"
  by (induction es) (auto split: if_splits)

lemma truthy_find:
  "list_all entity_core es \<Longrightarrow> truthy_opt (find P es) = (find P es \<noteq> None)"
  by (cases "find P es") (auto simp: truthy_opt_def dest: find_core entity_core_truthy)

lemma entity_rel_loop_total:
  assumes es: "kg_seq kg ''entities'' = Some es" "list_all entity_core es"
    and ent: "entity_core ent"
  shows "list_all wf_rel rels \<Longrightarrow> \<exists>ls. entity_rel_loop kg ent rels = Some ls"
proof (induction rels)
  case Nil
  then show ?case by simp
next
  case (Cons rel rest)
  then have r: "wf_rel rel" and "list_all wf_rel rest" by simp_all
  then obtain ls where ls: "entity_rel_loop kg ent rest = Some ls" using Cons.IH by blast
  note rs = resolve_find [OF es wf_rel_item(1) [OF r]] resolve_find [OF es wf_rel_item(2) [OF r]]
  show ?case
  proof (cases "find (\<lambda>e. field e ''id'' = field rel ''target'') es")
    case None
    note t = None
    show ?thesis
    proof (cases "find (\<lambda>e. field e ''id'' = field rel ''source'') es")
      case None
      then show ?thesis
        using t ls by (simp add: wf_rel_item [OF r] entity_core_item [OF ent] rs truthy_opt_def)
    next
      case (Some a)
      then have "entity_core a" using find_core [OF es(2)] by blast
      then show ?thesis
        using t Some ls
        by (simp add: wf_rel_item [OF r] entity_core_item [OF ent] rs truthy_opt_def
            entity_core_item [of a] entity_core_truthy)
    qed
  next
    case (Some b)
    then have b: "entity_core b" using find_core [OF es(2)] by blast
    note t = Some
    show ?thesis
    proof (cases "find (\<lambda>e. field e ''id'' = field rel ''source'') es")
      case None
      then show ?thesis
        using t ls b
        by (simp add: wf_rel_item [OF r] entity_core_item [OF ent] rs truthy_opt_def
            entity_core_item [of b] entity_core_truthy)
    next
      case (Some a)
      then have "entity_core a" using find_core [OF es(2)] by blast
      then show ?thesis
        using t Some ls b
        by (simp add: wf_rel_item [OF r] entity_core_item [OF ent] rs truthy_opt_def
            entity_core_item [of a] entity_core_item [of b] entity_core_truthy)
    qed
  qed
qed

lemma entity_full_core: "entity_full e \<Longrightarrow> entity_core e"
  by (cases e) auto

lemma props_print_total:
  "list_all (\<lambda>kv. case snd kv of JArr xs \<Rightarrow> list_all is_str xs | _ \<Rightarrow> True) ps \<Longrightarrow>
   props_print ps = Some ()"
  by (induction ps) (auto split: json.splits)

lemma entity_full_print:
  assumes "entity_full e"
  shows "\<exists>v. py_item e ''source_file'' = Some v" and "\<exists>v. py_item e ''confidence'' = Some v"
    and "\<exists>ps. entity_items e = Some ps \<and> props_print ps = Some ()"
  using assms
  by (cases e; auto simp: entity_items_def py_get_default_def props_print_total
      split: option.splits json.splits)+

lemma entity_loop_total:
  assumes es: "kg_seq kg ''entities'' = Some es" "list_all entity_core es"
    and rs: "kg_seq kg ''relationships'' = Some rels" "list_all wf_rel rels"
  shows "list_all entity_full ms \<Longrightarrow> \<exists>r. entity_loop kg ms = Some r \<and> map fst r = ms"
proof (induction ms)
  case Nil
  then show ?case by simp
next
  case (Cons m ms)
  then have m: "entity_full m" and "list_all entity_full ms" by simp_all
  then obtain r where r: "entity_loop kg ms = Some r" "map fst r = ms" using Cons.IH by blast
  have c: "entity_core m" using m by (rule entity_full_core)
  obtain ls where ls: "entity_rel_loop kg m rels = Some ls"
    using entity_rel_loop_total [OF es c rs(2)] by blast
  obtain v w ps where p: "py_item m ''source_file'' = Some v" "py_item m ''confidence'' = Some w"
    "entity_items m = Some ps" "props_print ps = Some ()"
    using entity_full_print [OF m] by blast
  show ?case using r ls p by (simp add: entity_core_item [OF c] rs(1))
qed

lemma find_entity_total:
  assumes es: "kg_seq kg ''entities'' = Some es" "list_all entity_full es"
    and rs: "kg_seq kg ''relationships'' = Some rels" "list_all wf_rel rels"
  shows "\<exists>r. find_entity kg p = Some r \<and>
      map fst r = filter (\<lambda>e. str_in (lower p) (lower (field e ''name''))) es"
proof -
  let ?ms = "filter (\<lambda>e. str_in (lower p) (lower (field e ''name''))) es"
  have core: "list_all entity_core es" using es(2) by (auto simp: list_all_iff entity_full_core)
  have m: "name_matches kg p = Some ?ms"
    using es(1) match_loop_filter [OF core, of "lower p" "[]"] by (simp add: name_matches_def)
  have "list_all entity_full ?ms" using es(2) by (auto simp: list_all_iff)
  then obtain r where "entity_loop kg ?ms = Some r" "map fst r = ?ms"
    using entity_loop_total [OF es(1) core rs] by blast
  then show ?thesis using m by (simp add: find_entity_def)
qed

section \<open>find entity: the matches\<close>

text \<open>
  C5. On a document of the data model, \<^verbatim>\<open>find_entity\<close> returns, and the entities it
  shows are exactly the entities whose lowercased name contains the lowercased pattern
  as a substring, in the order of the document's entity sequence. So every entity is
  among the results of \<^verbatim>\<open>find_entity\<close> on its own name, and a pattern without a match
  gives the empty result, not an error.
\<close>

theorem find_entity_matches:
  assumes "wf_kg_full kg" and "kg_seq kg ''entities'' = Some es"
  shows "(\<exists>r. find_entity kg pat = Some r \<and>
            map fst r = filter (\<lambda>e. \<exists>u v. lower (field e ''name'') = u @ lower pat @ v) es) \<and>
         (\<forall>e \<in> set es. \<exists>r. find_entity kg (field e ''name'') = Some r \<and> e \<in> set (map fst r))"
proof -
  from assms obtain rs where rs: "kg_seq kg ''relationships'' = Some rs" "list_all wf_rel rs"
    and full: "list_all entity_full es"
    by (auto simp: wf_kg_full_def split: option.splits)
  have core: "list_all entity_core es"
    using full by (auto simp: list_all_iff entity_full_core)
  have run: "\<exists>r. find_entity kg p = Some r \<and>
      map fst r = filter (\<lambda>e. \<exists>u v. lower (field e ''name'') = u @ lower p @ v) es" for p
  proof -
    let ?ms = "filter (\<lambda>e. str_in (lower p) (lower (field e ''name''))) es"
    have m: "name_matches kg p = Some ?ms"
      using assms(2) match_loop_filter [OF core, of "lower p" "[]"] by (simp add: name_matches_def)
    have "list_all entity_full ?ms" using full by (auto simp: list_all_iff)
    then obtain r where "entity_loop kg ?ms = Some r" "map fst r = ?ms"
      using entity_loop_total [OF assms(2) core rs] by blast
    then show ?thesis using m by (simp add: find_entity_def str_in_iff)
  qed
  have "\<exists>r. find_entity kg (field e ''name'') = Some r \<and> e \<in> set (map fst r)" if "e \<in> set es" for e
  proof -
    obtain r where r: "find_entity kg (field e ''name'') = Some r"
      "map fst r = filter (\<lambda>x. \<exists>u v. lower (field x ''name'') = u @ lower (field e ''name'') @ v) es"
      using run by blast
    have "lower (field e ''name'') = [] @ lower (field e ''name'') @ []" by simp
    then have "\<exists>u v. lower (field e ''name'') = u @ lower (field e ''name'') @ v" by blast
    then have "e \<in> set (map fst r)" using that unfolding r(2) by simp
    then show ?thesis using r(1) by blast
  qed
  then show ?thesis using run by blast
qed

theorem find_entity_matches_witness:
  "wf_kg_full alpha_kg \<and>
   (\<exists>r. find_entity alpha_kg ''alpha'' = Some r \<and>
      map fst r = [ex_entity ''e1'' ''Project Alpha'' ''project'', ex_entity ''e2'' ''Alpha Team'' ''team''])"
proof -
  let ?es = "[ex_entity ''e1'' ''Project Alpha'' ''project'', ex_entity ''e2'' ''Alpha Team'' ''team'']"
  have h1: "wf_kg_full alpha_kg" by code_simp
  have h2: "kg_seq alpha_kg ''entities'' = Some ?es" by code_simp
  have f: "filter (\<lambda>e. str_in (lower ''alpha'') (lower (field e ''name''))) ?es = ?es" by code_simp
  have f': "filter (\<lambda>e. \<exists>u v. lower (field e ''name'') = u @ lower ''alpha'' @ v) ?es = ?es"
    using f by (simp only: str_in_iff)
  have "\<exists>r. find_entity alpha_kg ''alpha'' = Some r \<and>
      map fst r = filter (\<lambda>e. \<exists>u v. lower (field e ''name'') = u @ lower ''alpha'' @ v) ?es"
    using find_entity_matches [OF h1 h2, of "''alpha''"] by blast
  then show ?thesis using h1 by (simp only: f')
qed

section \<open>The neighbours of an entity\<close>

lemma insort_key_map:
  "insort_key h (f x) (map f ys) = map f (insort_key (\<lambda>y. h (f y)) x ys)"
  by (induction ys) auto

lemma sort_key_map: "sort_key h (map f xs) = map f (sort_key (\<lambda>y. h (f y)) xs)"
  by (induction xs) (auto simp: insort_key_map)

lemma zip_map_self: "zip (map g xs) xs = map (\<lambda>x. (g x, x)) xs"
  by (induction xs) auto

lemma sort_key_decorated:
  "map snd (sort_key (\<lambda>p. k (fst p)) (zip (map g xs) xs)) = sort_key (\<lambda>x. k (g x)) xs"
  by (simp add: zip_map_self sort_key_map comp_def)

lemma those_map_Some: "(\<forall>x \<in> set xs. f x = Some (g x)) \<Longrightarrow> those (map f xs) = Some (map g xs)"
  by (induction xs) auto

lemma sort_key_short: "length xs \<le> 1 \<Longrightarrow> sort_key g xs = xs"
  by (cases xs) auto

lemma py_sort_key_str:
  assumes "\<forall>x \<in> set xs. f x = Some (JStr (g x))"
  shows "py_sort_key f xs = Some (sort_key g xs)"
proof -
  have t: "those (map f xs) = Some (map (\<lambda>x. JStr (g x)) xs)"
    using assms by (rule those_map_Some)
  have a: "list_all is_str (map (\<lambda>x. JStr (g x)) xs)" by (simp add: list_all_iff)
  have "map snd (sort_key (\<lambda>p. str_of (fst p)) (zip (map (\<lambda>x. JStr (g x)) xs) xs)) = sort_key g xs"
    by (simp add: sort_key_decorated)
  then show ?thesis using t a by (simp add: py_sort_key_def sort_key_short)
qed

lemma lookup_core:
  "list_all entity_core es \<Longrightarrow> lookup_id es i = Some e \<Longrightarrow>
   entity_core e \<and> e \<in> set es \<and> field e ''id'' = i"
  unfolding lookup_id_def by (drule (1) find_core) simp

lemma outgoing_loop_items:
  assumes es: "kg_seq kg ''entities'' = Some es" "list_all entity_core es"
    and ent: "entity_core ent"
  shows "list_all wf_rel rels \<Longrightarrow>
    outgoing_loop kg ent rels acc = Some (acc @ List.map_filter (out_item es ent) rels)"
proof (induction rels arbitrary: acc)
  case Nil
  then show ?case by (simp add: List.map_filter_simps)
next
  case (Cons rel rest)
  then have r: "wf_rel rel" and rest: "list_all wf_rel rest" by simp_all
  note ih = Cons.IH [OF rest]
  note rs = resolve_find [OF es wf_rel_item(2) [OF r]]
  show ?case
  proof (cases "lookup_id es (field rel ''target'')")
    case None
    then show ?thesis
      using ih
      by (simp add: wf_rel_item [OF r] entity_core_item [OF ent] rs truthy_opt_def
          out_item_def lookup_id_def List.map_filter_simps)
  next
    case (Some t)
    then have "truthy t" using lookup_core [OF es(2)] entity_core_truthy by blast
    then show ?thesis
      using ih Some
      by (simp add: wf_rel_item [OF r] entity_core_item [OF ent] rs truthy_opt_def
          out_item_def lookup_id_def List.map_filter_simps)
  qed
qed

lemma incoming_loop_items:
  assumes es: "kg_seq kg ''entities'' = Some es" "list_all entity_core es"
    and ent: "entity_core ent"
  shows "list_all wf_rel rels \<Longrightarrow>
    incoming_loop kg ent rels acc = Some (acc @ List.map_filter (in_item es ent) rels)"
proof (induction rels arbitrary: acc)
  case Nil
  then show ?case by (simp add: List.map_filter_simps)
next
  case (Cons rel rest)
  then have r: "wf_rel rel" and rest: "list_all wf_rel rest" by simp_all
  note ih = Cons.IH [OF rest]
  note rs = resolve_find [OF es wf_rel_item(1) [OF r]]
  show ?case
  proof (cases "lookup_id es (field rel ''source'')")
    case None
    then show ?thesis
      using ih
      by (simp add: wf_rel_item [OF r] entity_core_item [OF ent] rs truthy_opt_def
          in_item_def lookup_id_def List.map_filter_simps)
  next
    case (Some t)
    then have "truthy t" using lookup_core [OF es(2)] entity_core_truthy by blast
    then show ?thesis
      using ih Some
      by (simp add: wf_rel_item [OF r] entity_core_item [OF ent] rs truthy_opt_def
          in_item_def lookup_id_def List.map_filter_simps)
  qed
qed

lemma item_core:
  assumes "list_all entity_core es"
  shows "out_item es ent rel = Some x \<Longrightarrow> entity_core (entity x)"
    and "in_item es ent rel = Some x \<Longrightarrow> entity_core (entity x)"
  using lookup_core [OF assms]
  by (auto simp: out_item_def in_item_def split: if_splits)

lemma related_print_total:
  "\<forall>x \<in> set xs. entity_core (entity x) \<Longrightarrow> related_print xs = Some ()"
  by (induction xs) (auto simp: entity_core_item)

lemma related_of_neighbours:
  assumes es: "kg_seq kg ''entities'' = Some es" "list_all entity_core es"
    and rs: "kg_seq kg ''relationships'' = Some rels" "list_all wf_rel rels"
    and ent: "entity_core ent"
  shows "related_of kg ent = Some (neighbours es rels ent)"
proof -
  let ?both = "List.map_filter (out_item es ent) rels @ List.map_filter (in_item es ent) rels"
  have out: "outgoing_loop kg ent rels [] = Some (List.map_filter (out_item es ent) rels)"
    using outgoing_loop_items [OF es ent rs(2), of "[]"] by simp
  have both: "incoming_loop kg ent rels (List.map_filter (out_item es ent) rels) = Some ?both"
    using incoming_loop_items [OF es ent rs(2)] by simp
  have core: "\<forall>x \<in> set ?both. entity_core (entity x)"
    using item_core [OF es(2)] by (auto simp: List.map_filter_def)
  then have key: "\<forall>x \<in> set ?both. related_key x = Some (JStr (neighbour_name x))"
    by (simp add: related_key_def neighbour_name_def entity_core_item)
  have srt: "py_sort_key related_key ?both = Some (sort_key neighbour_name ?both)"
    using key by (rule py_sort_key_str)
  have "\<forall>x \<in> set (sort_key neighbour_name ?both). entity_core (entity x)"
    using core by simp
  then have pr: "related_print (sort_key neighbour_name ?both) = Some ()"
    by (rule related_print_total)
  show ?thesis
  proof (cases "?both = []")
    case True
    then show ?thesis using out both by (simp add: related_of_def rs(1) neighbours_def)
  next
    case False
    then show ?thesis using out both srt pr by (simp add: related_of_def rs(1) neighbours_def)
  qed
qed

lemma related_loop_neighbours:
  assumes es: "kg_seq kg ''entities'' = Some es" "list_all entity_core es"
    and rs: "kg_seq kg ''relationships'' = Some rels" "list_all wf_rel rels"
  shows "list_all entity_core ms \<Longrightarrow>
    related_loop kg ms = Some (map (\<lambda>e. (e, neighbours es rels e)) ms)"
  by (induction ms) (auto simp: entity_core_item related_of_neighbours [OF es rs])

lemma wf_kgD:
  assumes "wf_kg kg"
  obtains es rels where "kg_seq kg ''entities'' = Some es" "list_all entity_core es"
    "kg_seq kg ''relationships'' = Some rels" "list_all wf_rel rels"
  using assms by (auto simp: wf_kg_def split: option.splits)

lemma find_related_neighbours:
  assumes es: "kg_seq kg ''entities'' = Some es" "list_all entity_core es"
    and rs: "kg_seq kg ''relationships'' = Some rels" "list_all wf_rel rels"
  shows "find_related kg pat =
    Some (map (\<lambda>e. (e, neighbours es rels e))
           (filter (\<lambda>e. str_in (lower pat) (lower (field e ''name''))) es))"
proof -
  let ?ms = "filter (\<lambda>e. str_in (lower pat) (lower (field e ''name''))) es"
  have m: "name_matches kg pat = Some ?ms"
    using es(1) match_loop_filter [OF es(2), of "lower pat" "[]"] by (simp add: name_matches_def)
  have "list_all entity_core ?ms" using es(2) by (auto simp: list_all_iff)
  then show ?thesis
    using m related_loop_neighbours [OF es rs] by (simp add: find_related_def)
qed

section \<open>The results of a search\<close>

lemma search_entities_filter:
  "search_entities t es acc =
   acc @ map EntityResult (filter (\<lambda>e. str_in t (lower (json_dumps e))) es)"
  by (induction es arbitrary: acc) auto

lemma search_rels_items:
  assumes es: "kg_seq kg ''entities'' = Some es" "list_all entity_core es"
  shows "list_all wf_rel rels \<Longrightarrow>
    search_rels kg t rels acc = Some (acc @ List.map_filter (rel_result es t) rels)"
proof (induction rels arbitrary: acc)
  case Nil
  then show ?case by (simp add: List.map_filter_simps)
next
  case (Cons rel rest)
  then have r: "wf_rel rel" and rest: "list_all wf_rel rest" by simp_all
  note ih = Cons.IH [OF rest]
  note rs = resolve_find [OF es wf_rel_item(1) [OF r]] resolve_find [OF es wf_rel_item(2) [OF r]]
  have tr: "truthy_opt (lookup_id es i) = (lookup_id es i \<noteq> None)" for i
    unfolding lookup_id_def using es(2) by (rule truthy_find)
  show ?case
  proof (cases "str_in t (lower (json_dumps rel))")
    case False
    then show ?thesis using ih by (simp add: rel_result_def List.map_filter_simps)
  next
    case True
    show ?thesis
      using True ih tr [of "field rel ''source''"] tr [of "field rel ''target''"]
      by (cases "lookup_id es (field rel ''source'')"; cases "lookup_id es (field rel ''target'')")
        (simp_all add: rs rel_result_def List.map_filter_simps lookup_id_def)
  qed
qed

lemma entity_full_search_print:
  assumes "entity_full e"
  shows "\<exists>v. py_get_default e ''source_file'' (JStr ''unknown'') = Some v"
  using assms by (cases e) (auto simp: py_get_default_def split: option.splits)

lemma wf_rel_get_default: "wf_rel r \<Longrightarrow> \<exists>v. py_get_default r k d = Some v"
  by (cases r) (auto simp: py_get_default_def split: option.splits)

lemma search_print_total:
  assumes "\<forall>x \<in> set xs. case x of
      EntityResult e \<Rightarrow> entity_full e
    | RelationshipResult r s g \<Rightarrow> wf_rel r \<and> entity_core s \<and> entity_core g"
  shows "search_print xs = Some ()"
  using assms
proof (induction xs)
  case Nil
  then show ?case by simp
next
  case (Cons x xs)
  then have ih: "search_print xs = Some ()" by simp
  show ?case
  proof (cases x)
    case (EntityResult e)
    then have f: "entity_full e" using Cons.prems by simp
    obtain v ps where "py_get_default e ''source_file'' (JStr ''unknown'') = Some v"
      "entity_items e = Some ps"
      using entity_full_search_print [OF f] entity_full_print(3) [OF f] by blast
    then show ?thesis
      using EntityResult ih by (simp add: entity_core_item [OF entity_full_core [OF f]])
  next
    case (RelationshipResult r s g)
    then have w: "wf_rel r" "entity_core s" "entity_core g" using Cons.prems by simp_all
    obtain v w' where "py_get_default r ''source_file'' (JStr ''unknown'') = Some v"
      "py_get_default r ''confidence'' (JStr ''unknown'') = Some w'"
      using wf_rel_get_default [OF w(1)] by blast
    then show ?thesis
      using RelationshipResult ih
      by (simp add: wf_rel_item [OF w(1)] entity_core_item [OF w(2)] entity_core_item [OF w(3)])
  qed
qed

lemma wf_kg_fullD:
  assumes "wf_kg_full kg"
  obtains es rels where "kg_seq kg ''entities'' = Some es" "list_all entity_full es"
    "list_all entity_core es"
    "kg_seq kg ''relationships'' = Some rels" "list_all wf_rel rels"
proof -
  from assms obtain es rels where a: "kg_seq kg ''entities'' = Some es" "list_all entity_full es"
    "kg_seq kg ''relationships'' = Some rels" "list_all wf_rel rels"
    by (auto simp: wf_kg_full_def split: option.splits)
  have "list_all entity_core es" using a(2) by (auto simp: list_all_iff entity_full_core)
  then show ?thesis using a that by blast
qed

lemma search_results:
  assumes es: "kg_seq kg ''entities'' = Some es" "list_all entity_full es"
    and rs: "kg_seq kg ''relationships'' = Some rels" "list_all wf_rel rels"
  shows "search kg term =
    Some (map EntityResult (filter (\<lambda>e. str_in (lower term) (lower (json_dumps e))) es) @
          List.map_filter (rel_result es (lower term)) rels)"
proof -
  let ?r = "map EntityResult (filter (\<lambda>e. str_in (lower term) (lower (json_dumps e))) es) @
          List.map_filter (rel_result es (lower term)) rels"
  have core: "list_all entity_core es" using es(2) by (auto simp: list_all_iff entity_full_core)
  have sr: "search_rels kg (lower term) rels (search_entities (lower term) es []) = Some ?r"
    using search_rels_items [OF es(1) core rs(2)] by (simp add: search_entities_filter)
  have "\<forall>x \<in> set ?r. case x of
      EntityResult e \<Rightarrow> entity_full e
    | RelationshipResult r s g \<Rightarrow> wf_rel r \<and> entity_core s \<and> entity_core g"
  proof
    fix x assume "x \<in> set ?r"
    then consider e where "x = EntityResult e" "e \<in> set es"
      | r where "r \<in> set rels" "rel_result es (lower term) r = Some x"
      by (auto simp: List.map_filter_def)
    then show "case x of
      EntityResult e \<Rightarrow> entity_full e
    | RelationshipResult r s g \<Rightarrow> wf_rel r \<and> entity_core s \<and> entity_core g"
    proof cases
      case 1
      then show ?thesis using es(2) by (simp add: list_all_iff)
    next
      case 2
      then obtain s g where "x = RelationshipResult r s g"
        "lookup_id es (field r ''source'') = Some s" "lookup_id es (field r ''target'') = Some g"
        by (auto simp: rel_result_def split: if_splits option.splits)
      then show ?thesis
        using 2(1) rs(2) lookup_core [OF core] by (auto simp: list_all_iff)
    qed
  qed
  then have "search_print ?r = Some ()" by (rule search_print_total)
  then show ?thesis using sr by (simp add: search_def es(1) rs(1))
qed

section \<open>find related: both directions\<close>

lemma resolve_lookup:
  assumes "kg_seq kg ''entities'' = Some es" "list_all entity_core es" "wf_rel R"
  shows "resolve kg R ''source'' = Some (lookup_id es (field R ''source''))"
    and "resolve kg R ''target'' = Some (lookup_id es (field R ''target''))"
  using resolve_find [OF assms(1,2) wf_rel_item(1) [OF assms(3)]]
    resolve_find [OF assms(1,2) wf_rel_item(2) [OF assms(3)]]
  by (simp_all add: lookup_id_def)

lemma map_filter_mem: "x \<in> set xs \<Longrightarrow> f x = Some y \<Longrightarrow> y \<in> set (List.map_filter f xs)"
  by (force simp: List.map_filter_def)

text \<open>
  C1. Let R be a relationship of a document of the data model whose source resolves to
  the entity s and whose target resolves to the entity t. Then \<^verbatim>\<open>find_related\<close> with a
  pattern that matches the name of s returns, and lists t under s as outgoing with the
  type of R; with a pattern that matches the name of t it returns, and lists s under t
  as incoming with the type of R.
\<close>

theorem find_related_both_directions:
  assumes "wf_kg kg"
    and "kg_seq kg ''relationships'' = Some rels" and "R \<in> set rels"
    and "resolve kg R ''source'' = Some (Some s)" and "resolve kg R ''target'' = Some (Some t)"
    and "str_in (lower p) (lower (field s ''name''))"
    and "str_in (lower q) (lower (field t ''name''))"
  shows "(\<exists>r grp. find_related kg p = Some r \<and> (s, grp) \<in> set r \<and>
            \<lparr>entity = t, relationship = JStr (field R ''type''), direction = Outgoing\<rparr> \<in> set grp) \<and>
         (\<exists>r grp. find_related kg q = Some r \<and> (t, grp) \<in> set r \<and>
            \<lparr>entity = s, relationship = JStr (field R ''type''), direction = Incoming\<rparr> \<in> set grp)"
proof -
  from assms(1,2) obtain es where es: "kg_seq kg ''entities'' = Some es" "list_all entity_core es"
    and rs: "kg_seq kg ''relationships'' = Some rels" "list_all wf_rel rels"
    by (auto elim!: wf_kgD)
  have R: "wf_rel R" using rs(2) assms(3) by (simp add: list_all_iff)
  have ls: "lookup_id es (field R ''source'') = Some s"
    and lt: "lookup_id es (field R ''target'') = Some t"
    using assms(4,5) resolve_lookup [OF es R] by simp_all
  have s: "s \<in> set es" "field s ''id'' = field R ''source''"
    and t: "t \<in> set es" "field t ''id'' = field R ''target''"
    using lookup_core [OF es(2) ls] lookup_core [OF es(2) lt] by simp_all
  have "out_item es s R = Some \<lparr>entity = t, relationship = JStr (field R ''type''), direction = Outgoing\<rparr>"
    using s(2) lt by (simp add: out_item_def)
  then have o: "\<lparr>entity = t, relationship = JStr (field R ''type''), direction = Outgoing\<rparr>
      \<in> set (neighbours es rels s)"
    using assms(3) by (auto simp: neighbours_def intro: map_filter_mem)
  have "in_item es t R = Some \<lparr>entity = s, relationship = JStr (field R ''type''), direction = Incoming\<rparr>"
    using t(2) ls by (simp add: in_item_def)
  then have i: "\<lparr>entity = s, relationship = JStr (field R ''type''), direction = Incoming\<rparr>
      \<in> set (neighbours es rels t)"
    using assms(3) by (auto simp: neighbours_def intro: map_filter_mem)
  have "(s, neighbours es rels s) \<in> set (map (\<lambda>e. (e, neighbours es rels e))
      (filter (\<lambda>e. str_in (lower p) (lower (field e ''name''))) es))"
    using s(1) assms(6) by auto
  moreover have "(t, neighbours es rels t) \<in> set (map (\<lambda>e. (e, neighbours es rels e))
      (filter (\<lambda>e. str_in (lower q) (lower (field e ''name''))) es))"
    using t(1) assms(7) by auto
  ultimately show ?thesis
    using o i find_related_neighbours [OF es rs] by blast
qed

theorem find_related_both_directions_witness:
  "wf_kg works_kg \<and>
   (\<exists>r grp. find_related works_kg ''alice'' = Some r \<and> (alice, grp) \<in> set r \<and>
      \<lparr>entity = acme, relationship = JStr ''works_for'', direction = Outgoing\<rparr> \<in> set grp) \<and>
   (\<exists>r grp. find_related works_kg ''ACME'' = Some r \<and> (acme, grp) \<in> set r \<and>
      \<lparr>entity = alice, relationship = JStr ''works_for'', direction = Incoming\<rparr> \<in> set grp)"
proof -
  have h1: "wf_kg works_kg" by code_simp
  have h2: "kg_seq works_kg ''relationships'' = Some [ex_rel ''e1'' ''e2'' ''works_for'']"
    by code_simp
  have h3: "ex_rel ''e1'' ''e2'' ''works_for'' \<in> set [ex_rel ''e1'' ''e2'' ''works_for'']" by simp
  have h4: "resolve works_kg (ex_rel ''e1'' ''e2'' ''works_for'') ''source'' = Some (Some alice)"
    by code_simp
  have h5: "resolve works_kg (ex_rel ''e1'' ''e2'' ''works_for'') ''target'' = Some (Some acme)"
    by code_simp
  have h6: "str_in (lower ''alice'') (lower (field alice ''name''))" by code_simp
  have h7: "str_in (lower ''ACME'') (lower (field acme ''name''))" by code_simp
  have f: "field (ex_rel ''e1'' ''e2'' ''works_for'') ''type'' = ''works_for''" by code_simp
  show ?thesis
    using find_related_both_directions [OF h1 h2 h3 h4 h5 h6 h7] h1 unfolding f by blast
qed

section \<open>find related: the order of the neighbours\<close>

text \<open>
  C3, as the claim states it, fails. In the document below the first relationship
  goes from Bob to Ann and the second from Ann to Bob. Both give Ann the neighbour
  Bob, so the two triples tie on the name; \<^verbatim>\<open>find_related\<close> lists the outgoing triple of
  the second relationship before the incoming triple of the first.
\<close>

theorem find_related_tie_counterexample:
  "kg_seq tie_kg ''relationships'' = Some [ex_rel ''b'' ''a'' ''manages'', ex_rel ''a'' ''b'' ''mentors''] \<and>
   find_related tie_kg ''Ann'' =
     Some [(ann, [\<lparr>entity = bob, relationship = JStr ''mentors'', direction = Outgoing\<rparr>,
                  \<lparr>entity = bob, relationship = JStr ''manages'', direction = Incoming\<rparr>])]"
  by code_simp

text \<open>
  C3, amended. On a document of the data model, the triples that \<^verbatim>\<open>find_related\<close> lists
  under a matching entity are sorted by the name of the neighbour (strs compared code
  point by code point), and the triples of one name stand in the order in which they
  were collected: the outgoing triples in the order of the relationship sequence, then
  the incoming triples in the order of the relationship sequence.
\<close>

theorem find_related_sorted_stable:
  assumes "wf_kg kg"
    and "kg_seq kg ''entities'' = Some es" and "kg_seq kg ''relationships'' = Some rels"
  shows "\<exists>r. find_related kg p = Some r \<and>
    (\<forall>(e, grp) \<in> set r.
       sorted (map neighbour_name grp) \<and>
       (\<forall>n. filter (\<lambda>x. neighbour_name x = n) grp =
            filter (\<lambda>x. neighbour_name x = n)
              (List.map_filter (out_item es e) rels @ List.map_filter (in_item es e) rels)))"
proof -
  from assms have es: "kg_seq kg ''entities'' = Some es" "list_all entity_core es"
    and rs: "kg_seq kg ''relationships'' = Some rels" "list_all wf_rel rels"
    by (auto elim!: wf_kgD)
  have "sorted (map neighbour_name (neighbours es rels e))" for e
    by (simp add: neighbours_def)
  moreover have "filter (\<lambda>x. neighbour_name x = n) (neighbours es rels e) =
      filter (\<lambda>x. neighbour_name x = n)
        (List.map_filter (out_item es e) rels @ List.map_filter (in_item es e) rels)" for e n
    unfolding neighbours_def by (rule sort_key_stable)
  ultimately show ?thesis
    unfolding find_related_neighbours [OF es rs] by auto
qed

theorem find_related_sorted_stable_witness:
  "wf_kg tie_kg \<and>
   (\<exists>r. find_related tie_kg ''Ann'' = Some r \<and>
     (\<forall>(e, grp) \<in> set r.
        sorted (map neighbour_name grp) \<and>
        (\<forall>n. filter (\<lambda>x. neighbour_name x = n) grp =
             filter (\<lambda>x. neighbour_name x = n)
               (List.map_filter (out_item [ann, bob] e)
                  [ex_rel ''b'' ''a'' ''manages'', ex_rel ''a'' ''b'' ''mentors''] @
                List.map_filter (in_item [ann, bob] e)
                  [ex_rel ''b'' ''a'' ''manages'', ex_rel ''a'' ''b'' ''mentors'']))))"
proof -
  have h1: "wf_kg tie_kg" by code_simp
  have h2: "kg_seq tie_kg ''entities'' = Some [ann, bob]" by code_simp
  have h3: "kg_seq tie_kg ''relationships'' =
      Some [ex_rel ''b'' ''a'' ''manages'', ex_rel ''a'' ''b'' ''mentors'']" by code_simp
  show ?thesis using find_related_sorted_stable [OF h1 h2 h3, of "''Ann''"] h1 by blast
qed

section \<open>Dangling edges\<close>

lemma map_of_map_key:
  "map_of (map (\<lambda>kv. if fst kv = k then (fst kv, f (snd kv)) else kv) kvs) k' =
   (if k' = k then map_option f (map_of kvs k') else map_of kvs k')"
  by (induction kvs) auto

lemma drop_dangling_entities: "kg_seq (drop_dangling kg) ''entities'' = kg_seq kg ''entities''"
  by (cases kg) (simp_all add: drop_dangling_def kg_seq_def py_get_default_def map_of_map_key)

lemma drop_dangling_resolve: "resolve (drop_dangling kg) R k = resolve kg R k"
  by (simp add: resolve_def drop_dangling_entities)










section \<open>list types: the counts\<close>

text \<open>
  C2 asks that the counts of \<^verbatim>\<open>list_types\<close> add up to the number of entities, also when
  an entity has no type. The document below has one entity, without a type:
  \<^verbatim>\<open>list_types\<close> makes the bucket \<^verbatim>\<open>unknown\<close> for it (line 155 reads the type with that
  default) and counts nothing in it (line 164 reads the type without the default), so
  the counts add up to 0.
\<close>

theorem list_types_missing_type_uncounted:
  "kg_seq orphan_kg ''entities'' = Some [JObj [(''id'', JStr ''e1''), (''name'', JStr ''Orphan'')]] \<and>
   list_types (\<lambda>s. s) orphan_kg = Some ([(JStr ''unknown'', 0)], [])"
  by code_simp

section \<open>Documents without entities and relationships\<close>

lemma seq_empty_kg_seq: "seq_empty kg k \<Longrightarrow> kg_seq kg k = Some []"
  by (auto simp: seq_empty_def kg_seq_def py_get_default_def
      split: option.splits json.splits list.splits)

lemma seq_empty_len: "seq_empty kg k \<Longrightarrow> py_get_default kg k (JArr []) \<bind> py_len = Some 0"
  by (auto simp: seq_empty_def py_get_default_def split: option.splits json.splits list.splits)

lemma mapping_entries:
  "mapping_or_absent kg k \<Longrightarrow> py_get_default kg k (JObj []) = Some (JObj (entries kg k))"
  by (auto simp: mapping_or_absent_def entries_def py_get_default_def
      split: option.splits json.splits)

lemma arrangement_Nil: "arrangement order \<Longrightarrow> order [] = []"
  using mset_zero_iff by (fastforce simp: arrangement_def)

text \<open>
  C6, as the claim states it, fails: a document without entities and relationships can
  have notes, and \<^verbatim>\<open>show_info\<close> reports their number.
\<close>

theorem show_info_notes_counterexample:
  "seq_empty notes_kg ''entities'' \<and> seq_empty notes_kg ''relationships'' \<and>
   show_info notes_kg =
     Some \<lparr>entity_count = 0, rel_count = 0, note_count = 1, entity_type_count = 0,
           rel_type_count = 0, metadata_items = []\<rparr>"
  by code_simp

text \<open>
  C6, amended. Take a document in which the entities and the relationships are each
  missing or empty, and in which the notes and the metadata are each missing or a
  mapping. Every command returns on it. \<^verbatim>\<open>find_entity\<close>, \<^verbatim>\<open>find_related\<close>,
  \<^verbatim>\<open>list_entities_by_type\<close> and \<^verbatim>\<open>search\<close> give the empty result; \<^verbatim>\<open>list_types\<close> gives no
  entity type and no relationship type; \<^verbatim>\<open>show_info\<close> reports 0 entities, 0
  relationships, 0 entity types and 0 relationship types, and for the notes the number
  of entries of the notes mapping.
\<close>

theorem empty_document_queries:
  assumes "seq_empty kg ''entities''" and "seq_empty kg ''relationships''"
    and "mapping_or_absent kg ''notes''" and "mapping_or_absent kg ''metadata''"
    and "arrangement order"
  shows "find_entity kg p = Some [] \<and> find_related kg p = Some [] \<and>
         list_types order kg = Some ([], []) \<and> list_entities_by_type kg ty = Some [] \<and>
         search kg t = Some [] \<and>
         show_info kg =
           Some \<lparr>entity_count = 0, rel_count = 0, note_count = length (entries kg ''notes''),
                 entity_type_count = 0, rel_type_count = 0,
                 metadata_items = entries kg ''metadata''\<rparr>"
proof -
  note es = seq_empty_kg_seq [OF assms(1)] and rs = seq_empty_kg_seq [OF assms(2)]
  have le: "py_get_default kg ''entities'' (JArr []) \<bind> py_len = Some 0"
    and lr: "py_get_default kg ''relationships'' (JArr []) \<bind> py_len = Some 0"
    using assms(1,2) by (simp_all add: seq_empty_len)
  note nt = mapping_entries [OF assms(3)] and md = mapping_entries [OF assms(4)]
  have 1: "find_entity kg p = Some []" by (simp add: find_entity_def name_matches_def es)
  have 2: "find_related kg p = Some []" by (simp add: find_related_def name_matches_def es)
  have 3: "list_types order kg = Some ([], [])"
    by (simp add: list_types_def es rs arrangement_Nil [OF assms(5)] py_sorted_def py_sort_key_def)
  have 4: "list_entities_by_type kg ty = Some []" by (simp add: list_entities_by_type_def es)
  have 5: "search kg t = Some []" by (simp add: search_def es rs)
  obtain ev where ev: "py_get_default kg ''entities'' (JArr []) = Some ev" "py_len ev = Some 0"
    using le by (auto simp: bind_eq_Some_conv)
  obtain rv where rv: "py_get_default kg ''relationships'' (JArr []) = Some rv" "py_len rv = Some 0"
    using lr by (auto simp: bind_eq_Some_conv)
  have 6: "show_info kg =
      Some \<lparr>entity_count = 0, rel_count = 0, note_count = length (entries kg ''notes''),
            entity_type_count = 0, rel_type_count = 0, metadata_items = entries kg ''metadata''\<rparr>"
    by (simp add: show_info_def ev rv nt md es rs)
  show ?thesis using 1 2 3 4 5 6 by blast
qed

theorem empty_document_queries_witness:
  "seq_empty notes_kg ''entities'' \<and> mapping_or_absent notes_kg ''notes'' \<and>
   find_entity notes_kg ''a'' = Some [] \<and> find_related notes_kg ''a'' = Some [] \<and>
   list_types (\<lambda>s. s) notes_kg = Some ([], []) \<and> list_entities_by_type notes_kg ''person'' = Some [] \<and>
   search notes_kg ''a'' = Some [] \<and>
   show_info notes_kg =
     Some \<lparr>entity_count = 0, rel_count = 0, note_count = length (entries notes_kg ''notes''),
           entity_type_count = 0, rel_type_count = 0,
           metadata_items = entries notes_kg ''metadata''\<rparr>"
proof -
  have h1: "seq_empty notes_kg ''entities''" by code_simp
  have h2: "seq_empty notes_kg ''relationships''" by code_simp
  have h3: "mapping_or_absent notes_kg ''notes''" by code_simp
  have h4: "mapping_or_absent notes_kg ''metadata''" by code_simp
  have h5: "arrangement (\<lambda>s. s)" by (simp add: arrangement_def)
  show ?thesis
    using empty_document_queries [OF h1 h2 h3 h4 h5, of "''a''" "''person''" "''a''"] h1 h3
    by blast
qed

section \<open>search: the names of the fields\<close>

lemma escape_plain: "plain_char c \<Longrightarrow> escape_char c = [c]"
  by (auto simp: plain_char_def escape_char_def Let_def)

lemma concat_escape_plain: "list_all plain_char k \<Longrightarrow> concat (map escape_char k) = k"
  by (induction k) (auto simp: escape_plain)

lemma encode_plain: "list_all plain_char k \<Longrightarrow> encode_str k = [CHR 0x22] @ k @ [CHR 0x22]"
  by (simp add: encode_str_def concat_escape_plain)

lemma str_join_mem: "x \<in> set xs \<Longrightarrow> \<exists>u v. str_join sep xs = u @ x @ v"
proof (induction sep xs rule: str_join.induct)
  case (1 sep)
  then show ?case by simp
next
  case (2 sep y)
  then have "str_join sep [y] = [] @ x @ []" by simp
  then show ?case by blast
next
  case (3 sep y z zs)
  show ?case
  proof (cases "x = y")
    case True
    then have "str_join sep (y # z # zs) = [] @ x @ (sep @ str_join sep (z # zs))" by simp
    then show ?thesis by blast
  next
    case False
    then have "x \<in> set (z # zs)" using 3 by simp
    then obtain u v where "str_join sep (z # zs) = u @ x @ v" using 3 by blast
    then have "str_join sep (y # z # zs) = (y @ sep @ u) @ x @ v" by simp
    then show ?thesis by blast
  qed
qed

lemma dumps_has_key:
  assumes "(k, v) \<in> set kvs"
  shows "\<exists>u w. json_dumps (JObj kvs) = u @ encode_str k @ w"
proof -
  let ?g = "\<lambda>kv. encode_str (fst kv) @ '': '' @ json_dumps (snd kv)"
  have "?g (k, v) \<in> ?g ` set kvs" using assms by (rule imageI)
  then have "?g (k, v) \<in> set (map ?g kvs)" by simp
  then obtain u w where "str_join '', '' (map ?g kvs) = u @ ?g (k, v) @ w"
    using str_join_mem by blast
  then have "json_dumps (JObj kvs) = (''{'' @ u) @ encode_str k @ ('': '' @ json_dumps v @ w @ ''}'')"
    by simp
  then show ?thesis by blast
qed

lemma lower_append: "lower (a @ b) = lower a @ lower b"
  by (simp add: lower_def)

lemma str_in_dumps_key:
  assumes "(k, v) \<in> set kvs" and "list_all plain_char k" and "str_in t (lower k)"
  shows "str_in t (lower (json_dumps (JObj kvs)))"
proof -
  obtain u w where e: "json_dumps (JObj kvs) = u @ encode_str k @ w"
    using dumps_has_key [OF assms(1)] by blast
  have "json_dumps (JObj kvs) = (u @ [CHR 0x22]) @ k @ ([CHR 0x22] @ w)"
    using e by (simp add: encode_plain [OF assms(2)])
  then have d: "lower (json_dumps (JObj kvs)) =
      lower (u @ [CHR 0x22]) @ lower k @ lower ([CHR 0x22] @ w)"
    by (simp only: lower_append)
  obtain a b where "lower k = a @ t @ b" using assms(3) unfolding str_in_iff by blast
  then have "lower (json_dumps (JObj kvs)) =
      (lower (u @ [CHR 0x22]) @ a) @ t @ (b @ lower ([CHR 0x22] @ w))"
    using d by simp
  then show ?thesis unfolding str_in_iff by blast
qed

text \<open>
  C10, as the claim states it, fails: \<^verbatim>\<open>json.dumps\<close> does not write every field name as
  it is. The entity below has a field named \<^verbatim>\<open>caf\<close> plus an accented e; the accented e
  is a substring of that name, and \<^verbatim>\<open>json.dumps\<close> writes it as a backslash, the letter u and four hex digits, so the search
  for it finds nothing.
\<close>

theorem search_field_name_counterexample:
  "kg_seq accent_kg ''entities'' =
     Some [JObj [(''id'', JStr ''e1''), (''name'', JStr ''Bistro''), (''type'', JStr ''place''),
                 (''caf'' @ [CHR 0xE9], JStr ''yes'')]] \<and>
   str_in (lower [CHR 0xE9]) (lower (''caf'' @ [CHR 0xE9])) \<and>
   search accent_kg [CHR 0xE9] = Some []"
  by code_simp

text \<open>
  C10, amended. \<^verbatim>\<open>search\<close> looks for the lowercased term in the lowercased
  \<^verbatim>\<open>json.dumps\<close> of every entity. On a document of the data model, for every entity and
  every field name of it that is made of printable ASCII characters other than the
  double quote and the backslash, a term that is a case-insensitive substring of the
  field name puts the entity among the results, whatever the values of its fields.
\<close>

theorem search_matches_field_names:
  assumes "wf_kg_full kg" and "kg_seq kg ''entities'' = Some es"
    and "JObj kvs \<in> set es" and "(k, v) \<in> set kvs"
    and "list_all plain_char k" and "str_in (lower t) (lower k)"
  shows "\<exists>r. search kg t = Some r \<and> EntityResult (JObj kvs) \<in> set r"
proof -
  from assms(1,2) obtain rels where es: "kg_seq kg ''entities'' = Some es" "list_all entity_full es"
    and rs: "kg_seq kg ''relationships'' = Some rels" "list_all wf_rel rels"
    by (auto elim!: wf_kg_fullD)
  have "str_in (lower t) (lower (json_dumps (JObj kvs)))"
    using assms(4,5,6) by (rule str_in_dumps_key)
  then have "EntityResult (JObj kvs) \<in>
      set (map EntityResult (filter (\<lambda>e. str_in (lower t) (lower (json_dumps e))) es))"
    using assms(3) by simp
  then show ?thesis unfolding search_results [OF es rs] by simp
qed

theorem search_matches_field_names_witness:
  "wf_kg_full works_kg \<and> (\<exists>r. search works_kg ''Source_F'' = Some r \<and> EntityResult alice \<in> set r)"
proof -
  let ?kvs = "[(''id'', JStr ''e1''), (''name'', JStr ''Alice''), (''type'', JStr ''person''),
               (''source_file'', JStr ''notes.md''), (''confidence'', JInt 1)]"
  have a: "alice = JObj ?kvs" by (simp add: alice_def ex_entity_def)
  have h1: "wf_kg_full works_kg" by code_simp
  have h2: "kg_seq works_kg ''entities'' = Some [alice, acme]" by code_simp
  have h3: "JObj ?kvs \<in> set [alice, acme]" by (simp add: a)
  have h4: "(''source_file'', JStr ''notes.md'') \<in> set ?kvs" by simp
  have h5: "list_all plain_char ''source_file''" by code_simp
  have h6: "str_in (lower ''Source_F'') (lower ''source_file'')" by code_simp
  show ?thesis
    using search_matches_field_names [OF h1 h2 h3 h4 h5 h6] h1 unfolding a by blast
qed


section \<open>Two runs of a command\<close>

lemma those_Some_id: "those (map Some xs) = Some xs"
  by (induction xs) auto

lemma py_sorted_unfold:
  "py_sorted xs =
     (if length xs \<le> 1 then Some xs
      else if list_all is_str xs then Some (sort_key str_of xs)
      else if list_all is_number xs then Some (sort_key num_of xs)
      else None)"
proof -
  have "map snd (sort_key (\<lambda>p. str_of (fst p)) (zip xs xs)) = sort_key str_of xs"
    and "map snd (sort_key (\<lambda>p. num_of (fst p)) (zip xs xs)) = sort_key num_of xs"
    using sort_key_decorated [of str_of "\<lambda>x. x" xs] sort_key_decorated [of num_of "\<lambda>x. x" xs]
    by simp_all
  then show ?thesis by (simp add: py_sorted_def py_sort_key_def those_Some_id)
qed

lemma num_eq_py_eq: "is_number x \<Longrightarrow> is_number v \<Longrightarrow> num_of x = num_of v \<Longrightarrow> py_eq x v"
  by (cases x; cases v) (auto split: if_splits)

lemma set_add_distinct_nums:
  assumes "\<forall>x \<in> set s. \<forall>y \<in> set s. is_number x \<and> is_number y \<and> num_of x = num_of y \<longrightarrow> x = y"
    and "set_add s v = Some s'"
  shows "\<forall>x \<in> set s'. \<forall>y \<in> set s'. is_number x \<and> is_number y \<and> num_of x = num_of y \<longrightarrow> x = y"
proof (cases "list_ex (\<lambda>x. py_eq x v) s")
  case True
  then have "s' = s" using assms(2) by (auto simp: set_add_def split: if_splits)
  then show ?thesis using assms(1) by simp
next
  case False
  then have s': "s' = s @ [v]" using assms(2) by (auto simp: set_add_def split: if_splits)
  have n: "\<not> py_eq x v" if "x \<in> set s" for x using False that by (auto simp: list_ex_iff)
  have "x = v" if "x \<in> set s" "is_number x" "is_number v" "num_of x = num_of v" for x
    using n [OF that(1)] num_eq_py_eq [OF that(2,3,4)] by simp
  then show ?thesis using assms(1) unfolding s' by (auto; metis)
qed

lemma types_loop_distinct_nums:
  "\<forall>x \<in> set s. \<forall>y \<in> set s. is_number x \<and> is_number y \<and> num_of x = num_of y \<longrightarrow> x = y \<Longrightarrow>
   types_loop d xs s = Some s' \<Longrightarrow>
   \<forall>x \<in> set s'. \<forall>y \<in> set s'. is_number x \<and> is_number y \<and> num_of x = num_of y \<longrightarrow> x = y"
proof (induction xs arbitrary: s)
  case Nil
  then show ?case by simp
next
  case (Cons x xs)
  from Cons.prems(2) obtain t s1 where t: "py_get_default x ''type'' d = Some t"
    "set_add s t = Some s1" "types_loop d xs s1 = Some s'"
    by (auto simp: bind_eq_Some_conv)
  show ?case
    using Cons.IH [OF set_add_distinct_nums [OF Cons.prems(1) t(2)] t(3)] .
qed

lemma str_of_inj: "list_all is_str xs \<Longrightarrow> inj_on str_of (set xs)"
proof (rule inj_onI)
  fix x y assume a: "list_all is_str xs" "x \<in> set xs" "y \<in> set xs" "str_of x = str_of y"
  then have "is_str x" "is_str y" by (auto simp: list_all_iff)
  then show "x = y" using a(4) by (cases x; cases y) auto
qed

lemma mset_short: "mset a = mset b \<Longrightarrow> length b \<le> 1 \<Longrightarrow> a = b"
proof (cases b)
  case Nil
  assume "mset a = mset b" then show ?thesis using Nil by simp
next
  case (Cons x xs)
  assume m: "mset a = mset b" and "length b \<le> 1"
  then have b: "b = [x]" using Cons by simp
  then have "mset a = {#x#}" using m by simp
  then show ?thesis using b by (cases a) (auto simp: add_mset_eq_single)
qed

lemma py_sorted_arrangement:
  assumes inv: "\<forall>x \<in> set s. \<forall>y \<in> set s. is_number x \<and> is_number y \<and> num_of x = num_of y \<longrightarrow> x = y"
    and a: "mset a = mset s" and b: "mset b = mset s"
  shows "py_sorted a = py_sorted b"
proof -
  have ab: "mset a = mset b" using a b by simp
  then have len: "length a = length b" by (rule mset_eq_length)
  have st: "set a = set b" "set a = set s" using ab a by (auto dest: mset_eq_setD)
  show ?thesis
  proof (cases "length b \<le> 1")
    case True
    then have "a = b" using ab by (rule mset_short [rotated])
    then show ?thesis by simp
  next
    case False
    note long = this
    show ?thesis
    proof (cases "list_all is_str a")
      case True
      then have "sort_key str_of a = sort_key str_of b"
        using ab by (intro sort_key_eq_sort_key str_of_inj)
      then show ?thesis using True long len st by (simp add: py_sorted_unfold list_all_iff)
    next
      case False
      have "inj_on num_of (set a)" if "list_all is_number a"
      proof (rule inj_onI)
        fix x y assume "x \<in> set a" "y \<in> set a" "num_of x = num_of y"
        then show "x = y" using that inv st by (auto simp: list_all_iff)
      qed
      then have "sort_key num_of a = sort_key num_of b" if "list_all is_number a"
        using ab that by (intro sort_key_eq_sort_key)
      then show ?thesis using False long len st by (auto simp: py_sorted_unfold list_all_iff)
    qed
  qed
qed

lemma py_sorted_order:
  assumes "arrangement o1" "arrangement o2" "types_loop d xs [] = Some s"
  shows "py_sorted (o1 s) = py_sorted (o2 s)"
proof -
  have "\<forall>x \<in> set s. \<forall>y \<in> set s. is_number x \<and> is_number y \<and> num_of x = num_of y \<longrightarrow> x = y"
    using types_loop_distinct_nums [OF _ assms(3)] by simp
  then show ?thesis
    using assms(1,2) by (intro py_sorted_arrangement [of s]) (simp_all add: arrangement_def)
qed

text \<open>
  C8. Every command is a function of the document and of its argument, but for one
  thing that Python leaves open between two runs: the order in which a set hands over
  its elements, which \<^verbatim>\<open>list_types\<close> meets in \<^verbatim>\<open>sorted(types)\<close> and
  \<^verbatim>\<open>sorted(rel_types)\<close> (\<^verbatim>\<open>show_info\<close> takes the size of its sets only). Whatever two
  orders of iteration the two runs get, \<^verbatim>\<open>list_types\<close> gives the same lines in the same
  order, and raises in the one run exactly when it raises in the other.
\<close>

theorem list_types_order_independent:
  assumes "arrangement o1" and "arrangement o2"
  shows "list_types o1 kg = list_types o2 kg"
proof (cases "kg_seq kg ''entities''")
  case None
  then show ?thesis by (simp add: list_types_def)
next
  case (Some es)
  note es = this
  show ?thesis
  proof (cases "types_loop (JStr ''unknown'') es []")
    case None
    then show ?thesis by (simp add: list_types_def es)
  next
    case (Some types)
    note ty = this
    show ?thesis
    proof (cases "kg_seq kg ''relationships''")
      case None
      then show ?thesis by (simp add: list_types_def es ty)
    next
      case (Some rs)
      note rs = this
      show ?thesis
      proof (cases "types_loop (JStr ''unknown'') rs []")
        case None
        then show ?thesis by (simp add: list_types_def es ty rs)
      next
        case (Some rel_types)
        show ?thesis
          using py_sorted_order [OF assms ty] py_sorted_order [OF assms Some]
          by (simp add: list_types_def es ty rs Some)
      qed
    qed
  qed
qed


theorem list_types_order_independent_witness:
  "arrangement (\<lambda>s. s) \<and> arrangement rev \<and>
   list_types (\<lambda>s. s) tie_kg = list_types rev tie_kg \<and>
   list_types rev tie_kg = Some ([(JStr ''person'', 2)], [(JStr ''manages'', 1), (JStr ''mentors'', 1)])"
proof -
  have h1: "arrangement (\<lambda>s. s)" by (simp add: arrangement_def)
  have h2: "arrangement rev" by (simp add: arrangement_def)
  have v: "list_types rev tie_kg =
      Some ([(JStr ''person'', 2)], [(JStr ''manages'', 1), (JStr ''mentors'', 1)])" by code_simp
  show ?thesis using list_types_order_independent [OF h1 h2, of tie_kg] h1 h2 v by simp
qed

section \<open>The store after a command\<close>

lemma keeps_refl: "n \<le> length h \<Longrightarrow> keeps n h h"
  by (simp add: keeps_def)

lemma keeps_trans: "keeps n h h1 \<Longrightarrow> keeps n h1 h2 \<Longrightarrow> keeps n h h2"
  by (simp add: keeps_def)

lemma keeps_length: "keeps n h h' \<Longrightarrow> n \<le> length h'"
  by (simp add: keeps_def)

lemma keeps_update: "n \<le> length h \<Longrightarrow> n \<le> a \<Longrightarrow> keeps n h (h[a := ys])"
  by (simp add: keeps_def)

lemma keeps_new: "n \<le> length h \<Longrightarrow> keeps n h (h @ [[]])"
  by (simp add: keeps_def)

lemma update_each_keeps:
  "n \<le> length h \<Longrightarrow> n \<le> a \<Longrightarrow> keeps n h (snd (update_each step a xs h))"
proof (induction xs arbitrary: h)
  case Nil
  then show ?case by (simp add: keeps_refl)
next
  case (Cons x xs)
  show ?case
  proof (cases "step h x (h ! a)")
    case None
    then show ?thesis using Cons.prems by (simp add: keeps_refl)
  next
    case (Some ys)
    have "keeps n h (h[a := ys])" using Cons.prems by (rule keeps_update)
    moreover have "keeps n (h[a := ys]) (snd (update_each step a xs (h[a := ys])))"
      using Cons.prems by (intro Cons.IH) simp_all
    ultimately show ?thesis using Some by (simp add: keeps_trans)
  qed
qed

lemma sort_at_keeps: "n \<le> length h \<Longrightarrow> n \<le> a \<Longrightarrow> keeps n h (snd (sort_at key a h))"
  by (auto simp: sort_at_def keeps_refl keeps_update split: option.splits)

lemma seq_h_keeps:
  assumes "keeps n h (snd m)"
    and "\<And>x h1. keeps n h h1 \<Longrightarrow> keeps n h (snd (f x h1))"
  shows "keeps n h (snd (seq_h m f))"
proof (cases m)
  case (Pair r h1)
  then show ?thesis using assms by (cases r) (auto simp: seq_h_def)
qed

lemma pure_keeps: "keeps n h h1 \<Longrightarrow> keeps n h (snd (r, h1))"
  by simp

lemma if_keeps:
  "(c \<Longrightarrow> keeps n h (snd A)) \<Longrightarrow> (\<not> c \<Longrightarrow> keeps n h (snd B)) \<Longrightarrow> keeps n h (snd (if c then A else B))"
  by simp

lemma update_each_keeps_from:
  "keeps n h h1 \<Longrightarrow> n \<le> a \<Longrightarrow> keeps n h (snd (update_each step a xs h1))"
  using update_each_keeps [of n h1 a step xs] keeps_trans keeps_length by blast

lemma sort_at_keeps_from:
  "keeps n h h1 \<Longrightarrow> n \<le> a \<Longrightarrow> keeps n h (snd (sort_at key a h1))"
  using sort_at_keeps [of n h1 a key] keeps_trans keeps_length by blast

lemma new_keeps_from: "keeps n h h1 \<Longrightarrow> keeps n h (h1 @ [[]])"
  using keeps_new [of n h1] keeps_trans keeps_length by blast

lemmas keeps_rules = seq_h_keeps pure_keeps if_keeps update_each_keeps_from sort_at_keeps_from
  new_keeps_from keeps_length

lemma related_of_h_keeps:
  assumes "keeps n h h1"
  shows "keeps n h (snd (related_of_h root ent h1))"
  unfolding related_of_h_def new_list_def Let_def prod.case
  by (rule keeps_rules assms | assumption)+

lemma related_loop_h_keeps:
  "keeps n h h1 \<Longrightarrow> keeps n h (snd (related_loop_h root ents h1))"
proof (induction ents arbitrary: h1)
  case Nil
  then show ?case by simp
next
  case (Cons ent rest)
  show ?case
    unfolding related_loop_h.simps
    by (rule keeps_rules related_of_h_keeps Cons.IH Cons.prems | assumption)+
qed

lemma find_related_h_keeps:
  assumes "keeps n h h1"
  shows "keeps n h (snd (find_related_h root name h1))"
  unfolding find_related_h_def new_list_def Let_def prod.case
  by (rule keeps_rules related_loop_h_keeps assms | assumption)+

lemma find_entity_h_keeps:
  assumes "keeps n h h1"
  shows "keeps n h (snd (find_entity_h root name h1))"
  unfolding find_entity_h_def new_list_def Let_def prod.case
  by (rule keeps_rules assms | assumption)+

lemma list_types_h_keeps:
  assumes "keeps n h h1"
  shows "keeps n h (snd (list_types_h order root h1))"
  unfolding list_types_h_def new_list_def Let_def prod.case
  by (rule keeps_rules assms | assumption)+

lemma list_entities_by_type_h_keeps:
  assumes "keeps n h h1"
  shows "keeps n h (snd (list_entities_by_type_h root ty h1))"
  unfolding list_entities_by_type_h_def new_list_def Let_def prod.case
  by (rule keeps_rules assms | assumption)+

lemma search_h_keeps:
  assumes "keeps n h h1"
  shows "keeps n h (snd (search_h root t h1))"
  unfolding search_h_def new_list_def Let_def prod.case
  by (rule keeps_rules assms | assumption)+

lemma deref_keeps:
  assumes "valid_refs root h" and "keeps (length h) h h'"
  shows "deref root h' = deref root h"
proof -
  have "h' ! a = h ! a" if "a < length h" for a
  proof -
    have "take (length h) h' ! a = take (length h) h ! a" using assms(2) by (simp add: keeps_def)
    then show ?thesis using that by simp
  qed
  then have "(case snd kv of Ref a \<Rightarrow> JArr (map un_ej (h' ! a)) | Val v \<Rightarrow> v) =
      (case snd kv of Ref a \<Rightarrow> JArr (map un_ej (h ! a)) | Val v \<Rightarrow> v)" if "kv \<in> set root" for kv
    using assms(1) that by (auto simp: valid_refs_def list_all_iff split: slot.splits)
  then show ?thesis by (simp add: deref_def)
qed

subsection \<open>The store and the value\<close>

lemma update_each_sim:
  assumes nil: "\<And>acc. L [] acc = Some acc"
    and sim: "\<And>h' x xs acc. keeps n hb h' \<Longrightarrow>
      (case step h' x (enc acc) of
         None \<Rightarrow> L (x # xs) acc = None
       | Some ys \<Rightarrow> ys = enc (dec ys) \<and> L (x # xs) acc = L xs (dec ys))"
  shows "keeps n hb h \<Longrightarrow> n \<le> a \<Longrightarrow> a < length h \<Longrightarrow> h ! a = enc acc \<Longrightarrow>
    \<exists>h'. update_each step a xs h = (map_option (\<lambda>_. ()) (L xs acc), h') \<and> keeps n hb h' \<and>
         (\<forall>r. L xs acc = Some r \<longrightarrow> h' ! a = enc r \<and> a < length h')"
proof (induction xs arbitrary: h acc)
  case Nil
  then show ?case by (simp add: nil)
next
  case (Cons x xs)
  note s = sim [OF Cons.prems(1), of x xs acc]
  show ?case
  proof (cases "step h x (enc acc)")
    case None
    then show ?thesis using s Cons.prems by simp
  next
    case (Some ys)
    then have acc': "ys = enc (dec ys)" "L (x # xs) acc = L xs (dec ys)"
      using s by auto
    have k: "keeps n hb (h[a := ys])"
      using Cons.prems(1,2) by (simp add: keeps_def)
    have "a < length (h[a := ys])" "h[a := ys] ! a = enc (dec ys)"
      using Cons.prems(3) acc'(1) by simp_all
    from Cons.IH [OF k Cons.prems(2) this] show ?thesis
      using Some Cons.prems(4) acc'(2) by simp
  qed
qed

lemma un_ej_comp: "un_ej \<circ> EJ = (\<lambda>x. x)"
  by (rule ext) simp

lemma un_er_comp: "un_er \<circ> ER = (\<lambda>x. x)"
  by (rule ext) simp

lemma un_es_comp: "un_es \<circ> ES = (\<lambda>x. x)"
  by (rule ext) simp

lemmas un_comp = un_ej_comp un_er_comp un_es_comp

lemma match_sim:
  "case match_step n x (map EJ acc) of
     None \<Rightarrow> match_loop n (x # xs) acc = None
   | Some ys \<Rightarrow> ys = map EJ (map un_ej ys) \<and>
       match_loop n (x # xs) acc = match_loop n xs (map un_ej ys)"
  by (cases "py_get_default x ''name'' (JStr [])"; cases "py_get_default x ''name'' (JStr []) \<bind> py_lower")
    (auto simp: match_step_def un_comp)

lemma by_type_sim:
  "case by_type_step ty x (map EJ acc) of
     None \<Rightarrow> by_type_loop ty (x # xs) acc = None
   | Some ys \<Rightarrow> ys = map EJ (map un_ej ys) \<and>
       by_type_loop ty (x # xs) acc = by_type_loop ty xs (map un_ej ys)"
  by (cases "py_get_default x ''type'' (JStr [])"; cases "py_get_default x ''type'' (JStr []) \<bind> py_lower")
    (auto simp: by_type_step_def un_comp)

lemma type_sim:
  "case type_step d x (map EJ acc) of
     None \<Rightarrow> types_loop d (x # xs) acc = None
   | Some ys \<Rightarrow> ys = map EJ (map un_ej ys) \<and>
       types_loop d (x # xs) acc = types_loop d xs (map un_ej ys)"
  by (cases "py_get_default x ''type'' d"; cases "py_get_default x ''type'' d \<bind> set_add acc")
    (auto simp: type_step_def un_comp)

lemma search_entity_sim:
  "case search_entity_step t x (map ES acc) of
     None \<Rightarrow> Some (search_entities t (x # xs) acc) = None
   | Some ys \<Rightarrow> ys = map ES (map un_es ys) \<and>
       Some (search_entities t (x # xs) acc) = Some (search_entities t xs (map un_es ys))"
  by (auto simp: search_entity_step_def un_comp)

lemma outgoing_sim:
  "case outgoing_step kg ent x (map ER acc) of
     None \<Rightarrow> outgoing_loop kg ent (x # xs) acc = None
   | Some ys \<Rightarrow> ys = map ER (map un_er ys) \<and>
       outgoing_loop kg ent (x # xs) acc = outgoing_loop kg ent xs (map un_er ys)"
  by (cases "py_item x ''source''"; cases "py_item ent ''id''"; cases "resolve kg x ''target''";
      cases "py_item x ''type''")
    (auto simp: outgoing_step_def un_comp)

lemma incoming_sim:
  "case incoming_step kg ent x (map ER acc) of
     None \<Rightarrow> incoming_loop kg ent (x # xs) acc = None
   | Some ys \<Rightarrow> ys = map ER (map un_er ys) \<and>
       incoming_loop kg ent (x # xs) acc = incoming_loop kg ent xs (map un_er ys)"
  by (cases "py_item x ''target''"; cases "py_item ent ''id''"; cases "resolve kg x ''source''";
      cases "py_item x ''type''")
    (auto simp: incoming_step_def un_comp)

lemma search_rel_sim:
  "case search_rel_step kg t x (map ES acc) of
     None \<Rightarrow> search_rels kg t (x # xs) acc = None
   | Some ys \<Rightarrow> ys = map ES (map un_es ys) \<and>
       search_rels kg t (x # xs) acc = search_rels kg t xs (map un_es ys)"
  by (cases "resolve kg x ''source''"; cases "resolve kg x ''target''")
    (auto simp: search_rel_step_def un_comp)

lemma py_sort_key_enc:
  assumes "\<And>x. dec (enc x) = x"
  shows "py_sort_key (\<lambda>e. f (dec e)) (map enc xs) = map_option (map enc) (py_sort_key f xs)"
proof -
  have m: "map (\<lambda>e. f (dec e)) (map enc xs) = map f xs" by (simp add: assms)
  have z: "zip ks (map enc xs) = map (\<lambda>p. (fst p, enc (snd p))) (zip ks xs)" for ks :: "json list"
    by (simp add: zip_map2 case_prod_beta)
  have "map snd (sort_key (\<lambda>p. k (fst p)) (zip ks (map enc xs))) =
      map enc (map snd (sort_key (\<lambda>p. k (fst p)) (zip ks xs)))" for ks and k :: "json \<Rightarrow> string"
    unfolding z by (simp add: sort_key_map comp_def)
  moreover have "map snd (sort_key (\<lambda>p. k (fst p)) (zip ks (map enc xs))) =
      map enc (map snd (sort_key (\<lambda>p. k (fst p)) (zip ks xs)))" for ks and k :: "json \<Rightarrow> int"
    unfolding z by (simp add: sort_key_map comp_def)
  ultimately show ?thesis
    unfolding py_sort_key_def m by (cases "those (map f xs)") simp_all
qed

lemma seq_h_pure: "seq_h (r, h) f = (case r of None \<Rightarrow> (None, h) | Some x \<Rightarrow> f x h)"
  by (simp add: seq_h_def)

lemma kg_seq_keeps:
  "valid_refs root h0 \<Longrightarrow> keeps (length h0) h0 h \<Longrightarrow> kg_seq (deref root h) k = kg_seq (deref root h0) k"
  by (simp add: deref_keeps)

lemma list_entities_by_type_h_result:
  assumes v: "valid_refs root h"
  shows "fst (list_entities_by_type_h root ty h) = list_entities_by_type (deref root h) ty"
proof -
  let ?kg = "deref root h" and ?a = "length h" and ?h1 = "h @ [[]]"
  have k1: "keeps (length h) h ?h1" by (simp add: keeps_def)
  have s1: "kg_seq (deref root ?h1) ''entities'' = kg_seq ?kg ''entities''"
    using v k1 by (rule kg_seq_keeps)
  show ?thesis
  proof (cases "kg_seq ?kg ''entities''")
    case None
    then show ?thesis
      by (simp add: list_entities_by_type_h_def list_entities_by_type_def new_list_def s1 seq_h_pure)
  next
    case (Some es)
    have "\<exists>h'. update_each (\<lambda>_. by_type_step (lower ty)) ?a es ?h1 =
        (map_option (\<lambda>_. ()) (by_type_loop (lower ty) es []), h') \<and> keeps (length h) h h' \<and>
        (\<forall>r. by_type_loop (lower ty) es [] = Some r \<longrightarrow> h' ! ?a = map EJ r \<and> ?a < length h')"
      by (rule update_each_sim [where dec = "map un_ej" and enc = "map EJ", OF _ by_type_sim k1])
        simp_all
    then obtain h3 where h3: "update_each (\<lambda>_. by_type_step (lower ty)) ?a es ?h1 =
        (map_option (\<lambda>_. ()) (by_type_loop (lower ty) es []), h3)"
      "\<And>r. by_type_loop (lower ty) es [] = Some r \<Longrightarrow> h3 ! ?a = map EJ r \<and> ?a < length h3"
      by blast
    show ?thesis
    proof (cases "by_type_loop (lower ty) es []")
      case None
      then show ?thesis
        using Some h3(1)
        by (simp add: list_entities_by_type_h_def list_entities_by_type_def new_list_def s1 seq_h_pure)
    next
      case (Some r)
      note r = this
      then have c: "h3 ! ?a = map EJ r" "?a < length h3" using h3(2) by simp_all
      have srt: "py_sort_key (\<lambda>x. name_key (un_ej x)) (map EJ r) = map_option (map EJ) (py_sort_key name_key r)"
        by (rule py_sort_key_enc) simp
      show ?thesis
        using \<open>kg_seq ?kg ''entities'' = Some es\<close> h3(1) r c srt
        by (cases "py_sort_key name_key r"; cases "r = []")
          (auto simp: list_entities_by_type_h_def list_entities_by_type_def new_list_def s1
            seq_h_pure sort_at_def un_ej_comp split: option.splits)
    qed
  qed
qed

lemma seq_update_each:
  assumes nil: "\<And>acc. L [] acc = Some acc"
    and sim: "\<And>h' x xs acc. keeps n hb h' \<Longrightarrow>
      (case step h' x (enc acc) of
         None \<Rightarrow> L (x # xs) acc = None
       | Some ys \<Rightarrow> ys = enc (dec ys) \<and> L (x # xs) acc = L xs (dec ys))"
    and h: "keeps n hb h" "n \<le> a" "a < length h" "h ! a = enc acc"
    and cont: "\<And>r h'. L xs acc = Some r \<Longrightarrow> keeps n hb h' \<Longrightarrow> h' ! a = enc r \<Longrightarrow>
      a < length h' \<Longrightarrow> fst (f () h') = g r"
  shows "fst (seq_h (update_each step a xs h) f) = (case L xs acc of None \<Rightarrow> None | Some r \<Rightarrow> g r)"
proof -
  have "\<exists>h'. update_each step a xs h = (map_option (\<lambda>_. ()) (L xs acc), h') \<and> keeps n hb h' \<and>
      (\<forall>r. L xs acc = Some r \<longrightarrow> h' ! a = enc r \<and> a < length h')"
    by (rule update_each_sim [where L = L and step = step and enc = enc and dec = dec
          and n = n and hb = hb and h = h and a = a and acc = acc])
      (rule nil | rule sim | rule h | assumption)+
  then obtain h' where h': "update_each step a xs h = (map_option (\<lambda>_. ()) (L xs acc), h')"
    "keeps n hb h'" "\<And>r. L xs acc = Some r \<Longrightarrow> h' ! a = enc r \<and> a < length h'"
    by blast
  show ?thesis
  proof (cases "L xs acc")
    case None
    then show ?thesis using h'(1) by (simp add: seq_h_def)
  next
    case (Some r)
    then show ?thesis using h'(1) cont [OF Some h'(2)] h'(3) [OF Some] by (simp add: seq_h_def)
  qed
qed

lemma fst_seq_h_pure: "fst (seq_h (r, h) f) = (case r of None \<Rightarrow> None | Some x \<Rightarrow> fst (f x h))"
  by (simp add: seq_h_def split: option.splits)

lemma related_tail_h:
  assumes "h5 ! a = map ER both" and "a < length h5"
  shows "fst (if h5 ! a = [] then (Some [], h5)
        else seq_h (sort_at (\<lambda>x. related_key (un_er x)) a h5) (\<lambda>_ h6.
             seq_h (related_print (map un_er (h6 ! a)), h6) (\<lambda>_ h7.
               (Some (map un_er (h7 ! a)), h7)))) =
      (if both = [] then Some []
       else py_sort_key related_key both \<bind> (\<lambda>sorted. related_print sorted \<bind> (\<lambda>_. Some sorted)))"
  using assms py_sort_key_enc [of un_er ER related_key both]
  by (cases "py_sort_key related_key both")
    (auto simp: sort_at_def seq_h_def un_er_comp split: option.splits)

lemma related_of_h_result:
  assumes v: "valid_refs root h0" and k: "keeps (length h0) h0 h"
  shows "fst (related_of_h root ent h) = related_of (deref root h0) ent"
proof -
  let ?kg = "deref root h0" and ?a = "length h" and ?h1 = "h @ [[]]" and ?n = "length h0"
  have k1: "keeps ?n h0 ?h1" using k by (simp add: keeps_def)
  have na: "?n \<le> ?a" using k by (simp add: keeps_def)
  note d = deref_keeps [OF v]
  let ?tail = "\<lambda>both. if both = [] then Some []
      else py_sort_key related_key both \<bind> (\<lambda>sorted. related_print sorted \<bind> (\<lambda>_. Some sorted))"
  let ?fin = "\<lambda>(u::unit) h5. if h5 ! ?a = [] then (Some [], h5)
          else seq_h (sort_at (\<lambda>x. related_key (un_er x)) ?a h5) (\<lambda>_ h6.
               seq_h (related_print (map un_er (h6 ! ?a)), h6) (\<lambda>_ h7.
                 (Some (map un_er (h7 ! ?a)), h7)))"
  let ?snd = "\<lambda>(u::unit) h3. seq_h (kg_seq (deref root h3) ''relationships'', h3) (\<lambda>rels' h4.
        seq_h (update_each (\<lambda>h. incoming_step (deref root h) ent) ?a rels' h4) ?fin)"
  have inc: "fst (?snd () h3) =
      (kg_seq ?kg ''relationships'' \<bind> (\<lambda>rels'. incoming_loop ?kg ent rels' out \<bind> ?tail))"
    if h3: "keeps ?n h0 h3" "h3 ! ?a = map ER out" "?a < length h3" for h3 out
  proof (cases "kg_seq ?kg ''relationships''")
    case None
    then show ?thesis by (simp add: fst_seq_h_pure d [OF h3(1)])
  next
    case (Some rels')
    have "fst (seq_h (update_each (\<lambda>h. incoming_step (deref root h) ent) ?a rels' h3) ?fin) =
        (case incoming_loop ?kg ent rels' out of None \<Rightarrow> None | Some r \<Rightarrow> ?tail r)"
    proof (rule seq_update_each [where dec = "map un_er" and enc = "map ER" and n = ?n and
          hb = h0 and L = "incoming_loop ?kg ent"])
      show "incoming_loop ?kg ent [] acc = Some acc" for acc by simp
      show "case incoming_step (deref root h') ent x (map ER acc) of
          None \<Rightarrow> incoming_loop ?kg ent (x # xs) acc = None
        | Some ys \<Rightarrow> ys = map ER (map un_er ys) \<and>
            incoming_loop ?kg ent (x # xs) acc = incoming_loop ?kg ent xs (map un_er ys)"
        if "keeps ?n h0 h'" for h' x xs acc
        unfolding d [OF that] by (rule incoming_sim)
      show "keeps ?n h0 h3" "?n \<le> ?a" "?a < length h3" "h3 ! ?a = map ER out"
        using h3 na by simp_all
      show "fst (?fin () h') = ?tail r" if "h' ! ?a = map ER r" "?a < length h'" for r h'
        using that by (rule related_tail_h)
    qed
    then show ?thesis
      using Some by (simp add: fst_seq_h_pure d [OF h3(1)] split: option.splits)
  qed
  show ?thesis
  proof (cases "kg_seq ?kg ''relationships''")
    case None
    then show ?thesis
      by (simp add: related_of_h_def related_of_def new_list_def fst_seq_h_pure d [OF k1])
  next
    case (Some rels)
    have "fst (seq_h (update_each (\<lambda>h. outgoing_step (deref root h) ent) ?a rels ?h1) ?snd) =
        (case outgoing_loop ?kg ent rels [] of None \<Rightarrow> None
         | Some out \<Rightarrow> kg_seq ?kg ''relationships'' \<bind> (\<lambda>rels'. incoming_loop ?kg ent rels' out \<bind> ?tail))"
    proof (rule seq_update_each [where dec = "map un_er" and enc = "map ER" and n = ?n and
          hb = h0 and L = "outgoing_loop ?kg ent"])
      show "outgoing_loop ?kg ent [] acc = Some acc" for acc by simp
      show "case outgoing_step (deref root h') ent x (map ER acc) of
          None \<Rightarrow> outgoing_loop ?kg ent (x # xs) acc = None
        | Some ys \<Rightarrow> ys = map ER (map un_er ys) \<and>
            outgoing_loop ?kg ent (x # xs) acc = outgoing_loop ?kg ent xs (map un_er ys)"
        if "keeps ?n h0 h'" for h' x xs acc
        unfolding d [OF that] by (rule outgoing_sim)
      show "keeps ?n h0 ?h1" "?n \<le> ?a" "?a < length ?h1" "?h1 ! ?a = map ER []"
        using k1 na by simp_all
      show "fst (?snd () h') =
          (kg_seq ?kg ''relationships'' \<bind> (\<lambda>rels'. incoming_loop ?kg ent rels' r \<bind> ?tail))"
        if "keeps ?n h0 h'" "h' ! ?a = map ER r" "?a < length h'" for r h'
        using that by (rule inc)
    qed
    then show ?thesis
      using Some
      by (simp add: related_of_h_def related_of_def new_list_def fst_seq_h_pure d [OF k1]
          split: option.splits)
  qed
qed

lemma fst_seq_h: "fst (seq_h m f) = (case fst m of None \<Rightarrow> None | Some x \<Rightarrow> fst (f x (snd m)))"
  by (cases m) (simp add: seq_h_def split: option.splits)

lemma keeps_mono: "m \<le> n \<Longrightarrow> keeps n h h' \<Longrightarrow> keeps m h h'"
proof -
  assume a: "m \<le> n" "keeps n h h'"
  then have "take m (take n h') = take m (take n h)" by (simp add: keeps_def)
  then show ?thesis using a by (simp add: keeps_def min_def)
qed

lemma keeps_nth: "keeps n h h' \<Longrightarrow> a < n \<Longrightarrow> h' ! a = h ! a"
proof -
  assume a: "keeps n h h'" "a < n"
  then have "take n h' ! a = take n h ! a" by (simp add: keeps_def)
  then show ?thesis using a(2) by simp
qed

lemma related_loop_h_result:
  assumes v: "valid_refs root h0"
  shows "keeps (length h0) h0 h \<Longrightarrow>
    fst (related_loop_h root ents h) = related_loop (deref root h0) ents"
proof (induction ents arbitrary: h)
  case Nil
  then show ?case by simp
next
  case (Cons ent rest)
  have r: "fst (related_of_h root ent h) = related_of (deref root h0) ent"
    using v Cons.prems by (rule related_of_h_result)
  have "keeps (length h0) h0 (snd (related_of_h root ent h))"
    using Cons.prems by (rule related_of_h_keeps)
  then have ih: "fst (related_loop_h root rest (snd (related_of_h root ent h))) =
      related_loop (deref root h0) rest"
    by (rule Cons.IH)
  show ?case
    by (cases "py_item ent ''name''"; cases "py_item ent ''type''";
        cases "related_of (deref root h0) ent"; cases "related_loop (deref root h0) rest")
      (simp_all add: fst_seq_h fst_seq_h_pure r ih)
qed

lemma find_related_h_result:
  assumes v: "valid_refs root h"
  shows "fst (find_related_h root name h) = find_related (deref root h) name"
proof -
  let ?kg = "deref root h" and ?a = "length h" and ?h1 = "h @ [[]]"
  have k1: "keeps ?a h ?h1" by (simp add: keeps_def)
  note d = deref_keeps [OF v]
  show ?thesis
  proof (cases "kg_seq ?kg ''entities''")
    case None
    then show ?thesis
      by (simp add: find_related_h_def find_related_def name_matches_def new_list_def
          fst_seq_h_pure d [OF k1])
  next
    case (Some es)
    have "fst (seq_h (update_each (\<lambda>_. match_step (lower name)) ?a es ?h1)
          (\<lambda>_ h3. related_loop_h root (map un_ej (h3 ! ?a)) h3)) =
        (case match_loop (lower name) es [] of None \<Rightarrow> None | Some r \<Rightarrow> related_loop ?kg r)"
    proof (rule seq_update_each [where dec = "map un_ej" and enc = "map EJ" and n = ?a and
          hb = h and L = "match_loop (lower name)"])
      show "match_loop (lower name) [] acc = Some acc" for acc by simp
      show "case match_step (lower name) x (map EJ acc) of
          None \<Rightarrow> match_loop (lower name) (x # xs) acc = None
        | Some ys \<Rightarrow> ys = map EJ (map un_ej ys) \<and>
            match_loop (lower name) (x # xs) acc = match_loop (lower name) xs (map un_ej ys)"
        for x xs acc
        by (rule match_sim)
      show "keeps ?a h ?h1" "?a \<le> ?a" "?a < length ?h1" "?h1 ! ?a = map EJ []"
        using k1 by simp_all
      show "fst (related_loop_h root (map un_ej (h' ! ?a)) h') = related_loop ?kg r"
        if "keeps ?a h h'" "h' ! ?a = map EJ r" for r h'
        using related_loop_h_result [OF v that(1)] that(2) by (simp add: un_ej_comp)
    qed
    then show ?thesis
      using Some
      by (simp add: find_related_h_def find_related_def name_matches_def new_list_def
          fst_seq_h_pure d [OF k1] split: option.splits)
  qed
qed

lemma find_entity_h_result:
  assumes v: "valid_refs root h"
  shows "fst (find_entity_h root name h) = find_entity (deref root h) name"
proof -
  let ?kg = "deref root h" and ?a = "length h" and ?h1 = "h @ [[]]"
  have k1: "keeps ?a h ?h1" by (simp add: keeps_def)
  note d = deref_keeps [OF v]
  show ?thesis
  proof (cases "kg_seq ?kg ''entities''")
    case None
    then show ?thesis
      by (simp add: find_entity_h_def find_entity_def name_matches_def new_list_def
          fst_seq_h_pure d [OF k1])
  next
    case (Some es)
    have "fst (seq_h (update_each (\<lambda>_. match_step (lower name)) ?a es ?h1)
          (\<lambda>_ h3. (entity_loop (deref root h3) (map un_ej (h3 ! ?a)), h3))) =
        (case match_loop (lower name) es [] of None \<Rightarrow> None | Some r \<Rightarrow> entity_loop ?kg r)"
    proof (rule seq_update_each [where dec = "map un_ej" and enc = "map EJ" and n = ?a and
          hb = h and L = "match_loop (lower name)"])
      show "match_loop (lower name) [] acc = Some acc" for acc by simp
      show "case match_step (lower name) x (map EJ acc) of
          None \<Rightarrow> match_loop (lower name) (x # xs) acc = None
        | Some ys \<Rightarrow> ys = map EJ (map un_ej ys) \<and>
            match_loop (lower name) (x # xs) acc = match_loop (lower name) xs (map un_ej ys)"
        for x xs acc
        by (rule match_sim)
      show "keeps ?a h ?h1" "?a \<le> ?a" "?a < length ?h1" "?h1 ! ?a = map EJ []"
        using k1 by simp_all
      show "fst (entity_loop (deref root h') (map un_ej (h' ! ?a)), h') = entity_loop ?kg r"
        if "keeps ?a h h'" "h' ! ?a = map EJ r" for r h'
        using d [OF that(1)] that(2) by (simp add: un_ej_comp)
    qed
    then show ?thesis
      using Some
      by (simp add: find_entity_h_def find_entity_def name_matches_def new_list_def
          fst_seq_h_pure d [OF k1] split: option.splits)
  qed
qed

lemma search_h_result:
  assumes v: "valid_refs root h"
  shows "fst (search_h root term h) = search (deref root h) term"
proof -
  let ?kg = "deref root h" and ?a = "length h" and ?h1 = "h @ [[]]" and ?t = "lower term"
  have k1: "keeps ?a h ?h1" by (simp add: keeps_def)
  note d = deref_keeps [OF v]
  let ?fin = "\<lambda>(u::unit) h5. seq_h (search_print (map un_es (h5 ! ?a)), h5) (\<lambda>_ h6.
        (Some (map un_es (h6 ! ?a)), h6))"
  let ?tail = "\<lambda>results. search_print results \<bind> (\<lambda>_. Some results)"
  let ?snd = "\<lambda>(u::unit) h3. seq_h (kg_seq (deref root h3) ''relationships'', h3) (\<lambda>rs h4.
        seq_h (update_each (\<lambda>h. search_rel_step (deref root h) ?t) ?a rs h4) ?fin)"
  have rel: "fst (?snd () h3) =
      (kg_seq ?kg ''relationships'' \<bind> (\<lambda>rs. search_rels ?kg ?t rs acc \<bind> ?tail))"
    if h3: "keeps ?a h h3" "h3 ! ?a = map ES acc" "?a < length h3" for h3 acc
  proof (cases "kg_seq ?kg ''relationships''")
    case None
    then show ?thesis by (simp add: fst_seq_h_pure d [OF h3(1)])
  next
    case (Some rs)
    have "fst (seq_h (update_each (\<lambda>h. search_rel_step (deref root h) ?t) ?a rs h3) ?fin) =
        (case search_rels ?kg ?t rs acc of None \<Rightarrow> None | Some r \<Rightarrow> ?tail r)"
    proof (rule seq_update_each [where dec = "map un_es" and enc = "map ES" and n = ?a and
          hb = h and L = "search_rels ?kg ?t"])
      show "search_rels ?kg ?t [] acc = Some acc" for acc by simp
      show "case search_rel_step (deref root h') ?t x (map ES acc) of
          None \<Rightarrow> search_rels ?kg ?t (x # xs) acc = None
        | Some ys \<Rightarrow> ys = map ES (map un_es ys) \<and>
            search_rels ?kg ?t (x # xs) acc = search_rels ?kg ?t xs (map un_es ys)"
        if "keeps ?a h h'" for h' x xs acc
        unfolding d [OF that] by (rule search_rel_sim)
      show "keeps ?a h h3" "?a \<le> ?a" "?a < length h3" "h3 ! ?a = map ES acc"
        using h3 by simp_all
      show "fst (?fin () h') = ?tail r" if "h' ! ?a = map ES r" for r h'
        using that by (cases "search_print r") (simp_all add: fst_seq_h_pure un_es_comp)
    qed
    then show ?thesis
      using Some by (simp add: fst_seq_h_pure d [OF h3(1)] split: option.splits)
  qed
  show ?thesis
  proof (cases "kg_seq ?kg ''entities''")
    case None
    then show ?thesis
      by (simp add: search_h_def search_def new_list_def fst_seq_h_pure d [OF k1])
  next
    case (Some es)
    have "fst (seq_h (update_each (\<lambda>_. search_entity_step ?t) ?a es ?h1) ?snd) =
        (case Some (search_entities ?t es []) of None \<Rightarrow> None
         | Some acc \<Rightarrow> kg_seq ?kg ''relationships'' \<bind> (\<lambda>rs. search_rels ?kg ?t rs acc \<bind> ?tail))"
    proof (rule seq_update_each [where dec = "map un_es" and enc = "map ES" and n = ?a and
          hb = h and L = "\<lambda>xs acc. Some (search_entities ?t xs acc)"])
      show "Some (search_entities ?t [] acc) = Some acc" for acc by simp
      show "case search_entity_step ?t x (map ES acc) of
          None \<Rightarrow> Some (search_entities ?t (x # xs) acc) = None
        | Some ys \<Rightarrow> ys = map ES (map un_es ys) \<and>
            Some (search_entities ?t (x # xs) acc) = Some (search_entities ?t xs (map un_es ys))"
        for x xs acc
        by (rule search_entity_sim)
      show "keeps ?a h ?h1" "?a \<le> ?a" "?a < length ?h1" "?h1 ! ?a = map ES []"
        using k1 by simp_all
      show "fst (?snd () h') =
          (kg_seq ?kg ''relationships'' \<bind> (\<lambda>rs. search_rels ?kg ?t rs r \<bind> ?tail))"
        if "keeps ?a h h'" "h' ! ?a = map ES r" "?a < length h'" for r h'
        using that by (rule rel)
    qed
    then show ?thesis
      using Some
      by (simp add: search_h_def search_def new_list_def fst_seq_h_pure d [OF k1]
          split: option.splits)
  qed
qed

lemma list_types_h_result:
  assumes v: "valid_refs root h"
  shows "fst (list_types_h order root h) = list_types order (deref root h)"
proof -
  let ?kg = "deref root h" and ?a = "length h" and ?h1 = "h @ [[]]" and ?u = "JStr ''unknown''"
  have k1: "keeps ?a h ?h1" by (simp add: keeps_def)
  note d = deref_keeps [OF v]
  let ?fin = "\<lambda>types rel_types.
      py_sorted (order types) \<bind> (\<lambda>st. counts_loop ?kg ''entities'' st \<bind> (\<lambda>ec.
      py_sorted (order rel_types) \<bind> (\<lambda>srt. counts_loop ?kg ''relationships'' srt \<bind> (\<lambda>rc.
      Some (ec, rc)))))"
  let ?snd = "\<lambda>(u::unit) h3.
      seq_h (kg_seq (deref root (h3 @ [[]])) ''relationships'', h3 @ [[]]) (\<lambda>rs h5.
      seq_h (update_each (\<lambda>_. type_step ?u) (length h3) rs h5) (\<lambda>_ h6.
        (py_sorted (order (map un_ej (h6 ! ?a))) \<bind> (\<lambda>st.
         counts_loop (deref root h6) ''entities'' st \<bind> (\<lambda>ec.
         py_sorted (order (map un_ej (h6 ! length h3))) \<bind> (\<lambda>srt.
         counts_loop (deref root h6) ''relationships'' srt \<bind> (\<lambda>rc.
         Some (ec, rc))))), h6)))"
  have rel: "fst (?snd () h3) =
      (kg_seq ?kg ''relationships'' \<bind> (\<lambda>rs. types_loop ?u rs [] \<bind> ?fin types))"
    if h3: "keeps ?a h h3" "h3 ! ?a = map EJ types" "?a < length h3" for h3 types
  proof -
    let ?b = "length h3" and ?h4 = "h3 @ [[]]"
    have k4: "keeps ?a h ?h4" using h3(1) by (simp add: keeps_def)
    have kb: "keeps ?b ?h4 ?h4" by (simp add: keeps_def)
    show ?thesis
    proof (cases "kg_seq ?kg ''relationships''")
      case None
      then show ?thesis by (simp add: fst_seq_h_pure d [OF k4])
    next
      case (Some rs)
      have "fst (seq_h (update_each (\<lambda>_. type_step ?u) ?b rs ?h4) (\<lambda>_ h6.
          (py_sorted (order (map un_ej (h6 ! ?a))) \<bind> (\<lambda>st.
           counts_loop (deref root h6) ''entities'' st \<bind> (\<lambda>ec.
           py_sorted (order (map un_ej (h6 ! ?b))) \<bind> (\<lambda>srt.
           counts_loop (deref root h6) ''relationships'' srt \<bind> (\<lambda>rc.
           Some (ec, rc))))), h6))) =
          (case types_loop ?u rs [] of None \<Rightarrow> None | Some r \<Rightarrow> ?fin types r)"
      proof (rule seq_update_each [where dec = "map un_ej" and enc = "map EJ" and n = ?b and
            hb = ?h4 and L = "types_loop ?u"])
        show "types_loop ?u [] acc = Some acc" for acc by simp
        show "case type_step ?u x (map EJ acc) of
            None \<Rightarrow> types_loop ?u (x # xs) acc = None
          | Some ys \<Rightarrow> ys = map EJ (map un_ej ys) \<and>
              types_loop ?u (x # xs) acc = types_loop ?u xs (map un_ej ys)"
          for x xs acc
          by (rule type_sim)
        show "keeps ?b ?h4 ?h4" "?b \<le> ?b" "?b < length ?h4" "?h4 ! ?b = map EJ []"
          using kb by simp_all
        show "fst (py_sorted (order (map un_ej (h' ! ?a))) \<bind> (\<lambda>st.
             counts_loop (deref root h') ''entities'' st \<bind> (\<lambda>ec.
             py_sorted (order (map un_ej (h' ! ?b))) \<bind> (\<lambda>srt.
             counts_loop (deref root h') ''relationships'' srt \<bind> (\<lambda>rc.
             Some (ec, rc))))), h') = ?fin types r"
          if "keeps ?b ?h4 h'" "h' ! ?b = map EJ r" for r h'
        proof -
          have "h' ! ?a = ?h4 ! ?a" using that(1) h3(3) by (rule keeps_nth)
          then have t: "h' ! ?a = map EJ types" using h3(2,3) by (simp add: nth_append)
          have "keeps ?a ?h4 h'" using that(1) h3(3) by (intro keeps_mono [of ?a ?b]) simp_all
          then have "keeps ?a h h'" using k4 keeps_trans by blast
          then show ?thesis using t that(2) by (simp add: d un_ej_comp)
        qed
      qed
      then show ?thesis
        using Some by (simp add: fst_seq_h_pure d [OF k4] split: option.splits)
    qed
  qed
  show ?thesis
  proof (cases "kg_seq ?kg ''entities''")
    case None
    then show ?thesis
      by (simp add: list_types_h_def list_types_def new_list_def fst_seq_h_pure d [OF k1])
  next
    case (Some es)
    have "fst (seq_h (update_each (\<lambda>_. type_step ?u) ?a es ?h1) ?snd) =
        (case types_loop ?u es [] of None \<Rightarrow> None
         | Some types \<Rightarrow> kg_seq ?kg ''relationships'' \<bind> (\<lambda>rs. types_loop ?u rs [] \<bind> ?fin types))"
    proof (rule seq_update_each [where dec = "map un_ej" and enc = "map EJ" and n = ?a and
          hb = h and L = "types_loop ?u"])
      show "types_loop ?u [] acc = Some acc" for acc by simp
      show "case type_step ?u x (map EJ acc) of
          None \<Rightarrow> types_loop ?u (x # xs) acc = None
        | Some ys \<Rightarrow> ys = map EJ (map un_ej ys) \<and>
            types_loop ?u (x # xs) acc = types_loop ?u xs (map un_ej ys)"
        for x xs acc
        by (rule type_sim)
      show "keeps ?a h ?h1" "?a \<le> ?a" "?a < length ?h1" "?h1 ! ?a = map EJ []"
        using k1 by simp_all
      show "fst (?snd () h') =
          (kg_seq ?kg ''relationships'' \<bind> (\<lambda>rs. types_loop ?u rs [] \<bind> ?fin r))"
        if "keeps ?a h h'" "h' ! ?a = map EJ r" "?a < length h'" for r h'
        using that by (rule rel)
    qed
    then show ?thesis
      using Some
      by (simp add: list_types_h_def list_types_def new_list_def fst_seq_h_pure d [OF k1]
          split: option.splits)
  qed
qed

text \<open>
  C7. The entity and the relationship sequences of the loaded document are list objects
  of the store. Every list that a command appends to or sorts is one that the command
  has made itself (\<^verbatim>\<open>matches\<close>, \<^verbatim>\<open>entities\<close>, \<^verbatim>\<open>related\<close>, \<^verbatim>\<open>results\<close>, the two sets of
  \<^verbatim>\<open>list_types\<close>). So after each of the six commands, whether it returns or raises, every
  object that was in the store before is unchanged, in its elements and in their
  order, and the document (its sequences and its metadata) is the document it was. On
  the store each command gives the result that it gives on the document as a value.
\<close>

theorem queries_keep_the_document:
  assumes "valid_refs root h"
  shows "(untouched root h (snd (find_entity_h root p h)) \<and>
          fst (find_entity_h root p h) = find_entity (deref root h) p) \<and>
         (untouched root h (snd (find_related_h root p h)) \<and>
          fst (find_related_h root p h) = find_related (deref root h) p) \<and>
         (untouched root h (snd (list_types_h order root h)) \<and>
          fst (list_types_h order root h) = list_types order (deref root h)) \<and>
         (untouched root h (snd (list_entities_by_type_h root ty h)) \<and>
          fst (list_entities_by_type_h root ty h) = list_entities_by_type (deref root h) ty) \<and>
         (untouched root h (snd (search_h root t h)) \<and>
          fst (search_h root t h) = search (deref root h) t) \<and>
         (untouched root h (snd (show_info_h root h)) \<and>
          fst (show_info_h root h) = show_info (deref root h))"
proof -
  have k: "keeps (length h) h h" by (simp add: keeps_def)
  have u: "untouched root h h'" if "keeps (length h) h h'" for h'
    using that deref_keeps [OF assms that] by (simp add: untouched_def keeps_def)
  have "untouched root h (snd (show_info_h root h)) \<and>
      fst (show_info_h root h) = show_info (deref root h)"
    by (simp add: show_info_h_def untouched_def)
  then show ?thesis
    using u [OF find_entity_h_keeps [OF k]] u [OF find_related_h_keeps [OF k]]
      u [OF list_types_h_keeps [OF k]] u [OF list_entities_by_type_h_keeps [OF k]]
      u [OF search_h_keeps [OF k]]
      find_entity_h_result [OF assms] find_related_h_result [OF assms]
      list_types_h_result [OF assms] list_entities_by_type_h_result [OF assms]
      search_h_result [OF assms]
    by blast
qed

theorem queries_keep_the_document_witness:
  "valid_refs ex_root ex_heap \<and>
   fst (list_entities_by_type_h ex_root ''person'' ex_heap) = Some [ann, bob] \<and>
   untouched ex_root ex_heap (snd (find_entity_h ex_root ''ann'' ex_heap)) \<and>
   untouched ex_root ex_heap (snd (find_related_h ex_root ''ann'' ex_heap)) \<and>
   untouched ex_root ex_heap (snd (list_types_h rev ex_root ex_heap)) \<and>
   untouched ex_root ex_heap (snd (list_entities_by_type_h ex_root ''person'' ex_heap)) \<and>
   untouched ex_root ex_heap (snd (search_h ex_root ''ann'' ex_heap)) \<and>
   untouched ex_root ex_heap (snd (show_info_h ex_root ex_heap))"
proof -
  have h1: "valid_refs ex_root ex_heap" by code_simp
  have v: "fst (list_entities_by_type_h ex_root ''person'' ex_heap) = Some [ann, bob]" by code_simp
  show ?thesis
    using queries_keep_the_document [OF h1, of "''ann''" rev "''person''" "''ann''"] h1 v
    by blast
qed

section \<open>Duplicate ids\<close>

lemma lookup_first:
  "case lookup_id es i of
     None \<Rightarrow> \<forall>e \<in> set es. field e ''id'' \<noteq> i
   | Some e \<Rightarrow> first_bearer es i e"
proof (cases "lookup_id es i")
  case None
  then have "\<forall>e \<in> set es. field e ''id'' \<noteq> i"
    by (auto simp: lookup_id_def find_None_iff)
  then show ?thesis using None by simp
next
  case (Some e)
  then obtain n where "n < length es" "es ! n = e" "field e ''id'' = i"
    "\<forall>m < n. field (es ! m) ''id'' \<noteq> i"
    unfolding lookup_id_def find_Some_iff by blast
  then have "first_bearer es i e" unfolding first_bearer_def by blast
  then show ?thesis using Some by simp
qed

lemma lookup_first_bearer: "lookup_id es i = Some e \<Longrightarrow> first_bearer es i e"
  using lookup_first [of es i] by simp

lemma entity_rel_loop_step:
  assumes es: "kg_seq kg ''entities'' = Some es" "list_all entity_core es"
    and ent: "entity_core ent" and r: "wf_rel rel"
  shows "entity_rel_loop kg ent (rel # rest) =
    (case entity_line es ent rel of
       None \<Rightarrow> entity_rel_loop kg ent rest
     | Some x \<Rightarrow> map_option ((#) x) (entity_rel_loop kg ent rest))"
proof -
  note rs = resolve_find [OF es wf_rel_item(1) [OF r]] resolve_find [OF es wf_rel_item(2) [OF r]]
  have core: "entity_core a" if "find P es = Some a" for P a
    using find_core [OF es(2) that] by blast
  show ?thesis
  proof (cases "find (\<lambda>e. field e ''id'' = field rel ''target'') es")
    case None
    note t = None
    show ?thesis
    proof (cases "find (\<lambda>e. field e ''id'' = field rel ''source'') es")
      case None
      then show ?thesis
        using t
        by (cases "entity_rel_loop kg ent rest")
          (simp_all add: wf_rel_item [OF r] entity_core_item [OF ent] rs truthy_opt_def
            entity_line_def out_item_def in_item_def lookup_id_def)
    next
      case (Some a)
      then show ?thesis
        using t core [OF Some]
        by (cases "entity_rel_loop kg ent rest")
          (simp_all add: wf_rel_item [OF r] entity_core_item [OF ent] rs truthy_opt_def
            entity_core_item [of a] entity_core_truthy
            entity_line_def out_item_def in_item_def lookup_id_def)
    qed
  next
    case (Some b)
    note t = Some
    note b = core [OF Some]
    show ?thesis
    proof (cases "find (\<lambda>e. field e ''id'' = field rel ''source'') es")
      case None
      then show ?thesis
        using t b
        by (cases "entity_rel_loop kg ent rest")
          (simp_all add: wf_rel_item [OF r] entity_core_item [OF ent] rs truthy_opt_def
            entity_core_item [of b] entity_core_truthy
            entity_line_def out_item_def in_item_def lookup_id_def)
    next
      case (Some a)
      then show ?thesis
        using t b core [OF Some]
        by (cases "entity_rel_loop kg ent rest")
          (simp_all add: wf_rel_item [OF r] entity_core_item [OF ent] rs truthy_opt_def
            entity_core_item [of a] entity_core_item [of b] entity_core_truthy
            entity_line_def out_item_def in_item_def lookup_id_def)
    qed
  qed
qed

lemma entity_rel_loop_lines:
  assumes es: "kg_seq kg ''entities'' = Some es" "list_all entity_core es"
    and ent: "entity_core ent"
  shows "list_all wf_rel rels \<Longrightarrow>
    entity_rel_loop kg ent rels = Some (List.map_filter (entity_line es ent) rels)"
proof (induction rels)
  case Nil
  then show ?case by (simp add: List.map_filter_simps)
next
  case (Cons rel rest)
  then have r: "wf_rel rel" and "list_all wf_rel rest" by simp_all
  then have ih: "entity_rel_loop kg ent rest = Some (List.map_filter (entity_line es ent) rest)"
    using Cons.IH by blast
  show ?case
    unfolding entity_rel_loop_step [OF es ent r] ih
    by (cases "entity_line es ent rel") (simp_all add: List.map_filter_simps)
qed

lemma entity_loop_lines:
  assumes es: "kg_seq kg ''entities'' = Some es" "list_all entity_core es"
    and rs: "kg_seq kg ''relationships'' = Some rels" "list_all wf_rel rels"
  shows "list_all entity_full ms \<Longrightarrow>
    entity_loop kg ms = Some (map (\<lambda>e. (e, List.map_filter (entity_line es e) rels)) ms)"
proof (induction ms)
  case Nil
  then show ?case by simp
next
  case (Cons m ms)
  then have m: "entity_full m" and "list_all entity_full ms" by simp_all
  then have ih: "entity_loop kg ms = Some (map (\<lambda>e. (e, List.map_filter (entity_line es e) rels)) ms)"
    using Cons.IH by blast
  have c: "entity_core m" using m by (rule entity_full_core)
  note ls = entity_rel_loop_lines [OF es c rs(2)]
  obtain v w ps where p: "py_item m ''source_file'' = Some v" "py_item m ''confidence'' = Some w"
    "entity_items m = Some ps" "props_print ps = Some ()"
    using entity_full_print [OF m] by blast
  show ?case using ih ls p by (simp add: entity_core_item [OF c] rs(1))
qed

lemma find_entity_lines:
  assumes es: "kg_seq kg ''entities'' = Some es" "list_all entity_full es"
    and rs: "kg_seq kg ''relationships'' = Some rels" "list_all wf_rel rels"
  shows "find_entity kg p =
    Some (map (\<lambda>e. (e, List.map_filter (entity_line es e) rels))
           (filter (\<lambda>e. str_in (lower p) (lower (field e ''name''))) es))"
proof -
  let ?ms = "filter (\<lambda>e. str_in (lower p) (lower (field e ''name''))) es"
  have core: "list_all entity_core es" using es(2) by (auto simp: list_all_iff entity_full_core)
  have m: "name_matches kg p = Some ?ms"
    using es(1) match_loop_filter [OF core, of "lower p" "[]"] by (simp add: name_matches_def)
  have "list_all entity_full ?ms" using es(2) by (auto simp: list_all_iff)
  then show ?thesis
    using m entity_loop_lines [OF es(1) core rs] by (simp add: find_entity_def)
qed

lemma core_type_default:
  "entity_core e \<Longrightarrow> py_get_default e ''type'' d = Some (JStr (field e ''type''))"
  by (cases e) (auto simp: has_str_def field_def py_get_default_def split: option.splits json.splits)

lemma rel_type_default:
  "wf_rel r \<Longrightarrow> py_get_default r ''type'' d = Some (JStr (field r ''type''))"
  by (cases r) (auto simp: has_str_def field_def py_get_default_def split: option.splits json.splits)

lemma types_loop_strs:
  "\<forall>x \<in> set xs. py_get_default x ''type'' d = Some (JStr (f x)) \<Longrightarrow> list_all is_str s \<Longrightarrow>
   \<exists>s'. types_loop d xs s = Some s' \<and> list_all is_str s'"
proof (induction xs arbitrary: s)
  case Nil
  then show ?case by simp
next
  case (Cons x xs)
  have "\<exists>s1. set_add s (JStr (f x)) = Some s1 \<and> list_all is_str s1"
    using Cons.prems(2) by (cases "list_ex (\<lambda>y. py_eq y (JStr (f x))) s") (simp_all add: set_add_def)
  then obtain s1 where s1: "set_add s (JStr (f x)) = Some s1" "list_all is_str s1" by blast
  have "\<forall>y \<in> set xs. py_get_default y ''type'' d = Some (JStr (f y))" using Cons.prems(1) by simp
  from Cons.IH [OF this s1(2)] show ?case using Cons.prems(1) s1(1) by simp
qed

lemma py_sorted_strs: "list_all is_str xs \<Longrightarrow> \<exists>ys. py_sorted xs = Some ys"
  by (simp add: py_sorted_unfold)

lemma arrangement_strs: "arrangement order \<Longrightarrow> list_all is_str s \<Longrightarrow> list_all is_str (order s)"
proof -
  assume a: "arrangement order" "list_all is_str s"
  then have "set (order s) = set s" by (auto simp: arrangement_def dest: mset_eq_setD)
  then show ?thesis using a(2) by (simp add: list_all_iff)
qed

lemma count_type_total: "\<forall>x \<in> set xs. \<exists>kvs. x = JObj kvs \<Longrightarrow> \<exists>n. count_type xs t = Some n"
  by (induction xs) auto

lemma counts_loop_total:
  assumes "kg_seq kg key = Some xs" and "\<forall>x \<in> set xs. \<exists>kvs. x = JObj kvs"
  shows "\<exists>r. counts_loop kg key ts = Some r"
proof (induction ts)
  case Nil
  then show ?case by simp
next
  case (Cons t ts)
  obtain n where "count_type xs t = Some n" using count_type_total [OF assms(2)] by blast
  then show ?case using Cons assms(1) by auto
qed

lemma entity_core_obj: "entity_core e \<Longrightarrow> \<exists>kvs. e = JObj kvs"
  by (cases e) auto

lemma wf_rel_obj: "wf_rel r \<Longrightarrow> \<exists>kvs. r = JObj kvs"
  by (cases r) auto

lemma list_types_total:
  assumes es: "kg_seq kg ''entities'' = Some es" "list_all entity_core es"
    and rs: "kg_seq kg ''relationships'' = Some rels" "list_all wf_rel rels"
    and ar: "arrangement order"
  shows "\<exists>r. list_types order kg = Some r"
proof -
  let ?u = "JStr ''unknown''"
  have "\<forall>x \<in> set es. py_get_default x ''type'' ?u = Some (JStr (field x ''type''))"
    using es(2) by (simp add: list_all_iff core_type_default)
  then obtain types where ty: "types_loop ?u es [] = Some types" "list_all is_str types"
    using types_loop_strs [of es ?u "\<lambda>x. field x ''type''" "[]"] by auto
  have "\<forall>x \<in> set rels. py_get_default x ''type'' ?u = Some (JStr (field x ''type''))"
    using rs(2) by (simp add: list_all_iff rel_type_default)
  then obtain rel_types where rt: "types_loop ?u rels [] = Some rel_types" "list_all is_str rel_types"
    using types_loop_strs [of rels ?u "\<lambda>x. field x ''type''" "[]"] by auto
  obtain st where st: "py_sorted (order types) = Some st"
    using py_sorted_strs [OF arrangement_strs [OF ar ty(2)]] by blast
  obtain srt where srt: "py_sorted (order rel_types) = Some srt"
    using py_sorted_strs [OF arrangement_strs [OF ar rt(2)]] by blast
  have "\<forall>x \<in> set es. \<exists>kvs. x = JObj kvs" using es(2) by (simp add: list_all_iff entity_core_obj)
  then obtain ec where ec: "counts_loop kg ''entities'' st = Some ec"
    using counts_loop_total [OF es(1)] by blast
  have "\<forall>x \<in> set rels. \<exists>kvs. x = JObj kvs" using rs(2) by (simp add: list_all_iff wf_rel_obj)
  then obtain rc where rc: "counts_loop kg ''relationships'' srt = Some rc"
    using counts_loop_total [OF rs(1)] by blast
  show ?thesis by (simp add: list_types_def es(1) rs(1) ty(1) rt(1) st srt ec rc)
qed

lemma by_type_loop_filter:
  "list_all entity_core es \<Longrightarrow>
   by_type_loop ty es acc = Some (acc @ filter (\<lambda>e. lower (field e ''type'') = ty) es)"
  by (induction es arbitrary: acc) (auto simp: core_type_default)

lemma by_type_print_total: "list_all entity_core es \<Longrightarrow> by_type_print es = Some ()"
proof (induction es)
  case Nil
  then show ?case by simp
next
  case (Cons e es)
  then have c: "entity_core e" by simp
  obtain kvs where "e = JObj kvs" using entity_core_obj [OF c] by blast
  then have "\<exists>v. py_get_default e ''source_file'' (JStr ''unknown'') = Some v"
    by (auto simp: py_get_default_def split: option.splits)
  then show ?case using Cons by (auto simp: entity_core_item [OF c])
qed

lemma list_entities_by_type_sorted:
  assumes es: "kg_seq kg ''entities'' = Some es" "list_all entity_core es"
  shows "list_entities_by_type kg ty =
    Some (sort_key (\<lambda>e. field e ''name'') (filter (\<lambda>e. lower (field e ''type'') = lower ty) es))"
proof -
  let ?ms = "filter (\<lambda>e. lower (field e ''type'') = lower ty) es"
  have ms: "list_all entity_core ?ms" using es(2) by (simp add: list_all_iff)
  have l: "by_type_loop (lower ty) es [] = Some ?ms"
    using by_type_loop_filter [OF es(2), of "lower ty" "[]"] by simp
  have "\<forall>x \<in> set ?ms. name_key x = Some (JStr (field x ''name''))"
    using ms by (simp add: list_all_iff name_key_def entity_core_name)
  then have s: "py_sort_key name_key ?ms = Some (sort_key (\<lambda>e. field e ''name'') ?ms)"
    by (rule py_sort_key_str)
  have "list_all entity_core (sort_key (\<lambda>e. field e ''name'') ?ms)"
    using ms by (simp add: list_all_iff)
  then have p: "by_type_print (sort_key (\<lambda>e. field e ''name'') ?ms) = Some ()"
    by (rule by_type_print_total)
  show ?thesis
    by (cases "?ms = []") (simp_all add: list_entities_by_type_def es(1) l s p)
qed

lemma kg_seq_len:
  "kg_seq kg k = Some xs \<Longrightarrow> py_get_default kg k (JArr []) \<bind> py_len = Some (length xs)"
proof -
  assume a: "kg_seq kg k = Some xs"
  then obtain v where v: "py_get_default kg k (JArr []) = Some v" "py_iter v = Some xs"
    by (auto simp: kg_seq_def bind_eq_Some_conv)
  then have "py_len v = Some (length xs)" by (cases v) auto
  then show ?thesis using v(1) by simp
qed

lemma show_info_counts:
  assumes es: "kg_seq kg ''entities'' = Some es" "list_all entity_core es"
    and rs: "kg_seq kg ''relationships'' = Some rels" "list_all wf_rel rels"
    and nt: "mapping_or_absent kg ''notes''" and md: "mapping_or_absent kg ''metadata''"
  shows "\<exists>i. show_info kg = Some i \<and> entity_count i = length es \<and> rel_count i = length rels"
proof -
  obtain ev where ev: "py_get_default kg ''entities'' (JArr []) = Some ev" "py_len ev = Some (length es)"
    using kg_seq_len [OF es(1)] by (auto simp: bind_eq_Some_conv)
  obtain rv where rv: "py_get_default kg ''relationships'' (JArr []) = Some rv"
    "py_len rv = Some (length rels)"
    using kg_seq_len [OF rs(1)] by (auto simp: bind_eq_Some_conv)
  have "\<forall>x \<in> set es. py_get_default x ''type'' JNull = Some (JStr (field x ''type''))"
    using es(2) by (simp add: list_all_iff core_type_default)
  then obtain types where ty: "types_loop JNull es [] = Some types"
    using types_loop_strs [of es JNull "\<lambda>x. field x ''type''" "[]"] by auto
  have "\<forall>x \<in> set rels. py_get_default x ''type'' JNull = Some (JStr (field x ''type''))"
    using rs(2) by (simp add: list_all_iff rel_type_default)
  then obtain rel_types where rt: "types_loop JNull rels [] = Some rel_types"
    using types_loop_strs [of rels JNull "\<lambda>x. field x ''type''" "[]"] by auto
  show ?thesis
    by (simp add: show_info_def ev rv es(1) rs(1) ty rt mapping_entries [OF nt] mapping_entries [OF md])
qed

lemma item_first_bearer:
  assumes "R \<in> set rels"
  shows "out_item es e R = Some x \<Longrightarrow> from_first_bearer es rels e x"
    and "in_item es e R = Some x \<Longrightarrow> from_first_bearer es rels e x"
    and "entity_line es e R = Some x \<Longrightarrow> from_first_bearer es rels e x"
proof -
  show o: "from_first_bearer es rels e x" if "out_item es e R = Some x"
  proof -
    from that obtain t where "field R ''source'' = field e ''id''"
      "lookup_id es (field R ''target'') = Some t"
      "x = \<lparr>entity = t, relationship = JStr (field R ''type''), direction = Outgoing\<rparr>"
      by (auto simp: out_item_def split: if_splits)
    then show ?thesis
      using assms lookup_first_bearer unfolding from_first_bearer_def by fastforce
  qed
  show i: "from_first_bearer es rels e x" if "in_item es e R = Some x"
  proof -
    from that obtain t where "field R ''target'' = field e ''id''"
      "lookup_id es (field R ''source'') = Some t"
      "x = \<lparr>entity = t, relationship = JStr (field R ''type''), direction = Incoming\<rparr>"
      by (auto simp: in_item_def split: if_splits)
    then show ?thesis
      using assms lookup_first_bearer unfolding from_first_bearer_def by fastforce
  qed
  show "from_first_bearer es rels e x" if "entity_line es e R = Some x"
    using that o i by (auto simp: entity_line_def split: if_splits)
qed

lemma map_filter_D: "y \<in> set (List.map_filter f xs) \<Longrightarrow> \<exists>x \<in> set xs. f x = Some y"
  by (auto simp: List.map_filter_def)

text \<open>
  C9. A document of the data model may give one id to several entities. Every
  resolution of an end of a relationship, which \<^verbatim>\<open>find_entity\<close>, \<^verbatim>\<open>find_related\<close> and
  \<^verbatim>\<open>search\<close> all do with the same expression, returns, and gives the first entity of
  the entity sequence that bears the id, or nothing when no entity bears it. What the
  three commands list is fixed by that: every relationship line of \<^verbatim>\<open>find_entity\<close>,
  every neighbour of \<^verbatim>\<open>find_related\<close> and both ends of every relationship result of
  \<^verbatim>\<open>search\<close> are first bearers of the id at that end, and the results are exactly the
  ones built from the first bearers. All six commands return on such a document
  (the notes and the metadata being mappings or missing).
\<close>

theorem duplicate_ids_first_wins:
  assumes "wf_kg_full kg"
    and "kg_seq kg ''entities'' = Some es" and "kg_seq kg ''relationships'' = Some rels"
    and "mapping_or_absent kg ''notes''" and "mapping_or_absent kg ''metadata''"
    and "arrangement order"
  shows "(\<forall>R \<in> set rels. resolve kg R ''source'' = Some (lookup_id es (field R ''source'')) \<and>
                          resolve kg R ''target'' = Some (lookup_id es (field R ''target''))) \<and>
         (\<forall>i. case lookup_id es i of
                None \<Rightarrow> \<forall>e \<in> set es. field e ''id'' \<noteq> i
              | Some e \<Rightarrow> first_bearer es i e) \<and>
         (\<exists>r. find_entity kg p = Some r \<and>
            r = map (\<lambda>e. (e, List.map_filter (entity_line es e) rels))
                  (filter (\<lambda>e. str_in (lower p) (lower (field e ''name''))) es) \<and>
            (\<forall>(e, ls) \<in> set r. \<forall>x \<in> set ls. from_first_bearer es rels e x)) \<and>
         (\<exists>r. find_related kg p = Some r \<and>
            r = map (\<lambda>e. (e, neighbours es rels e))
                  (filter (\<lambda>e. str_in (lower p) (lower (field e ''name''))) es) \<and>
            (\<forall>(e, grp) \<in> set r. \<forall>x \<in> set grp. from_first_bearer es rels e x)) \<and>
         (\<exists>r. search kg t = Some r \<and>
            r = map EntityResult (filter (\<lambda>e. str_in (lower t) (lower (json_dumps e))) es) @
                List.map_filter (rel_result es (lower t)) rels \<and>
            (\<forall>R s g. RelationshipResult R s g \<in> set r \<longrightarrow>
               R \<in> set rels \<and> first_bearer es (field R ''source'') s \<and>
               first_bearer es (field R ''target'') g)) \<and>
         list_entities_by_type kg ty =
           Some (sort_key (\<lambda>e. field e ''name'')
                  (filter (\<lambda>e. lower (field e ''type'') = lower ty) es)) \<and>
         (\<exists>r. list_types order kg = Some r) \<and>
         (\<exists>i. show_info kg = Some i \<and> entity_count i = length es \<and> rel_count i = length rels)"
proof -
  from assms(1-3) have es: "kg_seq kg ''entities'' = Some es" "list_all entity_full es"
    "list_all entity_core es"
    and rs: "kg_seq kg ''relationships'' = Some rels" "list_all wf_rel rels"
    by (auto elim!: wf_kg_fullD)
  have 1: "\<forall>R \<in> set rels. resolve kg R ''source'' = Some (lookup_id es (field R ''source'')) \<and>
                          resolve kg R ''target'' = Some (lookup_id es (field R ''target''))"
    using resolve_lookup [OF es(1,3)] rs(2) by (simp add: list_all_iff)
  have 2: "\<forall>i. case lookup_id es i of
                None \<Rightarrow> \<forall>e \<in> set es. field e ''id'' \<noteq> i
              | Some e \<Rightarrow> first_bearer es i e"
    using lookup_first by blast
  let ?ms = "filter (\<lambda>e. str_in (lower p) (lower (field e ''name''))) es"
  have 3: "\<exists>r. find_entity kg p = Some r \<and>
            r = map (\<lambda>e. (e, List.map_filter (entity_line es e) rels)) ?ms \<and>
            (\<forall>(e, ls) \<in> set r. \<forall>x \<in> set ls. from_first_bearer es rels e x)"
  proof -
    have "\<forall>(e, ls) \<in> set (map (\<lambda>e. (e, List.map_filter (entity_line es e) rels)) ?ms).
        \<forall>x \<in> set ls. from_first_bearer es rels e x"
      using item_first_bearer(3) by (fastforce dest: map_filter_D)
    then show ?thesis using find_entity_lines [OF es(1,2) rs] by simp
  qed
  have 4: "\<exists>r. find_related kg p = Some r \<and>
            r = map (\<lambda>e. (e, neighbours es rels e)) ?ms \<and>
            (\<forall>(e, grp) \<in> set r. \<forall>x \<in> set grp. from_first_bearer es rels e x)"
  proof -
    have "from_first_bearer es rels e x" if "x \<in> set (neighbours es rels e)" for e x
    proof -
      from that consider R where "R \<in> set rels" "out_item es e R = Some x"
        | R where "R \<in> set rels" "in_item es e R = Some x"
        by (auto simp: neighbours_def dest: map_filter_D)
      then show ?thesis using item_first_bearer(1,2) by cases blast+
    qed
    then have "\<forall>(e, grp) \<in> set (map (\<lambda>e. (e, neighbours es rels e)) ?ms).
        \<forall>x \<in> set grp. from_first_bearer es rels e x"
      by auto
    then show ?thesis using find_related_neighbours [OF es(1,3) rs] by simp
  qed
  let ?r = "map EntityResult (filter (\<lambda>e. str_in (lower t) (lower (json_dumps e))) es) @
          List.map_filter (rel_result es (lower t)) rels"
  have 5: "\<exists>r. search kg t = Some r \<and> r = ?r \<and>
            (\<forall>R s g. RelationshipResult R s g \<in> set r \<longrightarrow>
               R \<in> set rels \<and> first_bearer es (field R ''source'') s \<and>
               first_bearer es (field R ''target'') g)"
  proof -
    have "R \<in> set rels \<and> first_bearer es (field R ''source'') s \<and>
        first_bearer es (field R ''target'') g" if "RelationshipResult R s g \<in> set ?r" for R s g
    proof -
      from that obtain R' where R': "R' \<in> set rels"
        "rel_result es (lower t) R' = Some (RelationshipResult R s g)"
        by (auto dest: map_filter_D)
      then have "R' = R" "lookup_id es (field R' ''source'') = Some s"
        "lookup_id es (field R' ''target'') = Some g"
        by (auto simp: rel_result_def split: if_splits option.splits)
      then show ?thesis using R'(1) lookup_first_bearer by simp
    qed
    then show ?thesis using search_results [OF es(1,2) rs] by blast
  qed
  note 6 = list_entities_by_type_sorted [OF es(1,3), of ty]
  note 7 = list_types_total [OF es(1,3) rs assms(6)]
  note 8 = show_info_counts [OF es(1,3) rs assms(4,5)]
  show ?thesis using 1 2 3 4 5 6 7 8 by blast
qed

theorem duplicate_ids_first_wins_witness:
  "wf_kg_full dup_kg \<and>
   first_bearer [ex_entity ''e1'' ''First'' ''person'', ex_entity ''e1'' ''Second'' ''person'',
                 ex_entity ''e2'' ''Third'' ''person''] ''e1'' (ex_entity ''e1'' ''First'' ''person'') \<and>
   find_entity dup_kg ''third'' =
     Some [(ex_entity ''e2'' ''Third'' ''person'',
            [\<lparr>entity = ex_entity ''e1'' ''First'' ''person'', relationship = JStr ''knows'',
              direction = Outgoing\<rparr>])] \<and>
   find_related dup_kg ''third'' =
     Some [(ex_entity ''e2'' ''Third'' ''person'',
            [\<lparr>entity = ex_entity ''e1'' ''First'' ''person'', relationship = JStr ''knows'',
              direction = Outgoing\<rparr>])] \<and>
   search dup_kg ''knows'' =
     Some [RelationshipResult (ex_rel ''e2'' ''e1'' ''knows'') (ex_entity ''e2'' ''Third'' ''person'')
             (ex_entity ''e1'' ''First'' ''person'')] \<and>
   list_entities_by_type dup_kg ''person'' =
     Some [ex_entity ''e1'' ''First'' ''person'', ex_entity ''e1'' ''Second'' ''person'',
           ex_entity ''e2'' ''Third'' ''person''] \<and>
   (\<exists>r. list_types (\<lambda>s. s) dup_kg = Some r) \<and>
   (\<exists>i. show_info dup_kg = Some i \<and> entity_count i = 3 \<and> rel_count i = 1)"
proof -
  let ?es = "[ex_entity ''e1'' ''First'' ''person'', ex_entity ''e1'' ''Second'' ''person'',
              ex_entity ''e2'' ''Third'' ''person'']"
  let ?rels = "[ex_rel ''e2'' ''e1'' ''knows'']"
  have h1: "wf_kg_full dup_kg" by code_simp
  have h2: "kg_seq dup_kg ''entities'' = Some ?es" by code_simp
  have h3: "kg_seq dup_kg ''relationships'' = Some ?rels" by code_simp
  have h4: "mapping_or_absent dup_kg ''notes''" by code_simp
  have h5: "mapping_or_absent dup_kg ''metadata''" by code_simp
  have h6: "arrangement (\<lambda>s. s)" by (simp add: arrangement_def)
  note t = duplicate_ids_first_wins [OF h1 h2 h3 h4 h5 h6]
  have l: "lookup_id ?es ''e1'' = Some (ex_entity ''e1'' ''First'' ''person'')" by code_simp
  have fb: "first_bearer ?es ''e1'' (ex_entity ''e1'' ''First'' ''person'')"
    using t [of "''x''" "''x''" "''x''"] l
    by (auto dest!: spec [of _ "''e1''"])
  have e: "map (\<lambda>e. (e, List.map_filter (entity_line ?es e) ?rels))
        (filter (\<lambda>e. str_in (lower ''third'') (lower (field e ''name''))) ?es) =
      [(ex_entity ''e2'' ''Third'' ''person'',
        [\<lparr>entity = ex_entity ''e1'' ''First'' ''person'', relationship = JStr ''knows'',
          direction = Outgoing\<rparr>])]" by code_simp
  have r: "map (\<lambda>e. (e, neighbours ?es ?rels e))
        (filter (\<lambda>e. str_in (lower ''third'') (lower (field e ''name''))) ?es) =
      [(ex_entity ''e2'' ''Third'' ''person'',
        [\<lparr>entity = ex_entity ''e1'' ''First'' ''person'', relationship = JStr ''knows'',
          direction = Outgoing\<rparr>])]" by code_simp
  have s: "map EntityResult (filter (\<lambda>e. str_in (lower ''knows'') (lower (json_dumps e))) ?es) @
        List.map_filter (rel_result ?es (lower ''knows'')) ?rels =
      [RelationshipResult (ex_rel ''e2'' ''e1'' ''knows'') (ex_entity ''e2'' ''Third'' ''person'')
         (ex_entity ''e1'' ''First'' ''person'')]" by code_simp
  have b: "sort_key (\<lambda>e. field e ''name'')
        (filter (\<lambda>e. lower (field e ''type'') = lower ''person'') ?es) = ?es" by code_simp
  have c: "length ?es = 3" "length ?rels = 1" by simp_all
  show ?thesis
    using t [of "''third''" "''knows''" "''person''"] h1 fb unfolding e r s b c by blast
qed


end
